theory Spec2Isabelle
  imports Main "HOL-Library.Sublist" "HOL-Library.Multiset"
begin

section \<open>Python values, strings and bus messages\<close>

text \<open>
  The enclosure client of Mycroft Core (\<^verbatim>\<open>mycroft/client/enclosure/enclosure.py\<close>) is
  Python 2: a string is a byte string, modelled as \<^typ>\<open>string\<close>. The values stored in
  a configuration section or in the metadata of a bus message are the few below.
\<close>

datatype pyval = PyNone | PyBool bool | PyInt int | PyStr string

text \<open>The truth value Python's \<^verbatim>\<open>if v:\<close> gives to a value.\<close>

fun truthy :: "pyval \<Rightarrow> bool" where
  "truthy PyNone = False"
| "truthy (PyBool b) = b"
| "truthy (PyInt i) = (i \<noteq> 0)"
| "truthy (PyStr s) = (s \<noteq> [])"

text \<open>\<^verbatim>\<open>sub in s\<close> on strings: \<^verbatim>\<open>sub\<close> occurs in \<^verbatim>\<open>s\<close> as a contiguous run.\<close>

definition py_in :: "string \<Rightarrow> string \<Rightarrow> bool" where
  "py_in sub s = sublist sub s"

text \<open>The slice \<^verbatim>\<open>s[:-2]\<close>: all but the last two characters, empty when there are at most two.\<close>

definition drop_last2 :: "string \<Rightarrow> string" where
  "drop_last2 s = take (length s - 2) s"

text \<open>
  A dictionary is an association list read with \<^const>\<open>map_of\<close>. A bus message is its type
  and its metadata; the metadata is \<open>None\<close> where the constructor call names none
  (\<^verbatim>\<open>Message(data)\<close>) and where a received message carries \<^verbatim>\<open>None\<close>.
\<close>

type_synonym pydict = "(string \<times> pyval) list"

datatype message = Message (msg_type: string) (metadata: "pydict option")

section \<open>The world outside: effects, exceptions, traces\<close>

text \<open>
  Every call that leaves the module is an effect. Durations are in milliseconds
  (\<^verbatim>\<open>time.sleep(0.5)\<close> is \<open>Sleep 500\<close>, \<^verbatim>\<open>record(path, 3.0)\<close> is \<open>Record path 3000\<close>).
\<close>

datatype effect =
    Emit message
  | CreateSignal string
  | MixerNew
  | GetVolume
  | SetVolume int
  | Sleep nat
  | Record string nat
  | PlayWav string
  | SubprocessCall string
  | SerialOpen pyval int int
  | SerialReadline
  | SerialWrite string
  | SerialFlushInput
  | SerialFlushOutput
  | SerialClose
  | TaskDone
  | ConfigGet
  | ConfigSet string string string

datatype exn =
    Failed effect
  | IndexError
  | KeyError string
  | TypeError
  | ValueError
  | AttributeError
  | Exception string "exn option"
  | Aborted effect

text \<open>
  \<open>Failed e\<close> is an instance of \<^verbatim>\<open>Exception\<close> that the call \<open>e\<close> raised, \<open>Aborted e\<close> what
  it raised when that is no instance of \<^verbatim>\<open>Exception\<close> (\<^verbatim>\<open>KeyboardInterrupt\<close>, \<^verbatim>\<open>SystemExit\<close>);
  \<open>Exception msg cause\<close> is \<^verbatim>\<open>Exception(msg + str(cause))\<close>. \<open>is_exception\<close> is
  \<^verbatim>\<open>isinstance(e, Exception)\<close>, what an \<^verbatim>\<open>except Exception\<close> clause catches.
\<close>

fun is_exception :: "exn \<Rightarrow> bool" where
  "is_exception (Aborted e) = False"
| "is_exception _ = True"

text \<open>
  A trace lists what happened, oldest first: an effect that returned, an effect that
  raised, the line \<^verbatim>\<open>readline\<close> returned, the list \<^verbatim>\<open>getvolume\<close> returned, and the
  lines handed to the logger (the logger itself is taken not to raise).
\<close>

datatype event =
    Did effect
  | Raised effect
  | Read string
  | Volume "int list"
  | Info string
  | Error string "exn option"

type_synonym trace = "event list"

text \<open>
  The environment decides, from what has happened so far, whether a call raises, whether
  what it then raises is outside \<^verbatim>\<open>Exception\<close>, and what \<^verbatim>\<open>readline\<close> returns; it also holds the mixer's volume list and the \<^verbatim>\<open>enclosure\<close>
  section of the stored configuration (\<open>None\<close> when there is no such section).
\<close>

record env =
  raises :: "trace \<Rightarrow> effect \<Rightarrow> bool"
  fatal :: "trace \<Rightarrow> effect \<Rightarrow> bool"
  readline_data :: "trace \<Rightarrow> string"
  mixer_volume :: "int list"
  stored_config :: "pydict option"

text \<open>A program step runs on a state and returns the new state and a value or an exception.\<close>

type_synonym ('s, 'a) prog = "'s \<Rightarrow> 's \<times> (exn + 'a)"

definition ret :: "'a \<Rightarrow> ('s, 'a) prog" where
  "ret x = (\<lambda>s. (s, Inr x))"

definition raise :: "exn \<Rightarrow> ('s, 'a) prog" where
  "raise e = (\<lambda>s. (s, Inl e))"

definition bnd :: "('s, 'a) prog \<Rightarrow> ('a \<Rightarrow> ('s, 'b) prog) \<Rightarrow> ('s, 'b) prog" where
  "bnd m f = (\<lambda>s. case m s of (s', Inl e) \<Rightarrow> (s', Inl e) | (s', Inr x) \<Rightarrow> f x s')"

text \<open>Statements one after the other: the first exception ends the sequence.\<close>

fun seq :: "('s, unit) prog list \<Rightarrow> ('s, unit) prog" where
  "seq [] = ret ()"
| "seq (m # ms) = bnd m (\<lambda>_. seq ms)"

text \<open>An \<^verbatim>\<open>if\<close> with no \<^verbatim>\<open>else\<close>.\<close>

definition if_then :: "bool \<Rightarrow> ('s, unit) prog \<Rightarrow> ('s, unit) prog" where
  "if_then c m = (if c then m else ret ())"

text \<open>
  \<^verbatim>\<open>try: m except Exception as e: h\<close> catches the instances of \<^verbatim>\<open>Exception\<close> only; the bare
  \<^verbatim>\<open>try: m except: h\<close> catches whatever is raised. The handler receives what was raised.
\<close>

definition except_Exception ::
  "('s, 'a) prog \<Rightarrow> (exn \<Rightarrow> ('s, 'a) prog) \<Rightarrow> ('s, 'a) prog" where
  "except_Exception m h = (\<lambda>s.
     case m s of
       (s', Inl e) \<Rightarrow> if is_exception e then h e s' else (s', Inl e)
     | (s', Inr x) \<Rightarrow> (s', Inr x))"

definition try_except :: "('s, 'a) prog \<Rightarrow> (exn \<Rightarrow> ('s, 'a) prog) \<Rightarrow> ('s, 'a) prog" where
  "try_except m h = (\<lambda>s. case m s of (s', Inl e) \<Rightarrow> h e s' | (s', Inr x) \<Rightarrow> (s', Inr x))"

text \<open>What a call raises, when it raises.\<close>

definition raised_by :: "env \<Rightarrow> trace \<Rightarrow> effect \<Rightarrow> exn" where
  "raised_by env tr e = (if fatal env tr e then Aborted e else Failed e)"

definition perform :: "env \<Rightarrow> effect \<Rightarrow> (trace, unit) prog" where
  "perform env e = (\<lambda>tr.
     if raises env tr e then (tr @ [Raised e], Inl (raised_by env tr e))
     else (tr @ [Did e], Inr ()))"

definition log_info :: "string \<Rightarrow> (trace, unit) prog" where
  "log_info s = (\<lambda>tr. (tr @ [Info s], Inr ()))"

definition log_error :: "string \<Rightarrow> exn option \<Rightarrow> (trace, unit) prog" where
  "log_error s e = (\<lambda>tr. (tr @ [Error s e], Inr ()))"

definition emit :: "env \<Rightarrow> message \<Rightarrow> (trace, unit) prog" where
  "emit env m = perform env (Emit m)"

definition getvolume :: "env \<Rightarrow> (trace, int list) prog" where
  "getvolume env = (\<lambda>tr.
     if raises env tr GetVolume then (tr @ [Raised GetVolume], Inl (raised_by env tr GetVolume))
     else (tr @ [Volume (mixer_volume env)], Inr (mixer_volume env)))"

definition readline :: "env \<Rightarrow> (trace, string) prog" where
  "readline env = (\<lambda>tr.
     if raises env tr SerialReadline
     then (tr @ [Raised SerialReadline], Inl (raised_by env tr SerialReadline))
     else (tr @ [Read (readline_data env tr)], Inr (readline_data env tr)))"

section \<open>EnclosureReader\<close>

text \<open>The \<^verbatim>\<open>mic.test\<close> branch of \<^verbatim>\<open>process\<close>; \<^verbatim>\<open>getvolume()[0]\<close> raises on an empty list.\<close>

definition mic_test :: "env \<Rightarrow> (trace, unit) prog" where
  "mic_test env =
     bnd (perform env MixerNew) (\<lambda>_.
     bnd (getvolume env) (\<lambda>vols.
       case vols of
         [] \<Rightarrow> raise IndexError
       | prev_vol # _ \<Rightarrow> seq [
           perform env (SetVolume 35),
           emit env (Message ''speak''
             (Some [(''utterance'', PyStr ''I am testing one two three'')])),
           perform env (Sleep 500),
           perform env (Record ''/tmp/test.wav'' 3000),
           perform env (SetVolume prev_vol),
           perform env (PlayWav ''/tmp/test.wav''),
           perform env (Sleep 3500),
           perform env (SubprocessCall ''speaker-test -P 10 -l 0 -s 1'')]))"

text \<open>\<^verbatim>\<open>EnclosureReader.process\<close>: the raw line, then ten \<^verbatim>\<open>if\<close> statements in a row.\<close>

definition process :: "env \<Rightarrow> string \<Rightarrow> (trace, unit) prog" where
  "process env data = seq [
     emit env (Message data None),
     if_then (py_in ''mycroft.stop'' data) (seq [
       perform env (CreateSignal ''buttonPress''),
       emit env (Message ''mycroft.stop'' None)]),
     if_then (py_in ''volume.up'' data)
       (emit env (Message ''IncreaseVolumeIntent'' (Some [(''play_sound'', PyBool True)]))),
     if_then (py_in ''volume.down'' data)
       (emit env (Message ''DecreaseVolumeIntent'' (Some [(''play_sound'', PyBool True)]))),
     if_then (py_in ''system.test.begin'' data)
       (emit env (Message ''recognizer_loop:sleep'' None)),
     if_then (py_in ''system.test.end'' data)
       (emit env (Message ''recognizer_loop:wake_up'' None)),
     if_then (py_in ''mic.test'' data) (mic_test env),
     if_then (py_in ''unit.shutdown'' data) (seq [
       emit env (Message ''enclosure.eyes.timedspin'' (Some [(''length'', PyInt 12000)])),
       emit env (Message ''enclosure.mouth.reset'' None),
       perform env (SubprocessCall ''systemctl poweroff -i'')]),
     if_then (py_in ''unit.reboot'' data) (seq [
       emit env (Message ''enclosure.eyes.spin'' None),
       emit env (Message ''enclosure.mouth.reset'' None),
       perform env (SubprocessCall ''systemctl reboot -i'')]),
     if_then (py_in ''unit.setwifi'' data)
       (emit env (Message ''mycroft.wifi.start'' None)),
     if_then (py_in ''unit.factory-reset'' data) (seq [
       perform env (SubprocessCall ''rm ~/.mycroft/identity/identity.json''),
       emit env (Message ''enclosure.eyes.spin'' None),
       emit env (Message ''enclosure.mouth.reset'' None),
       perform env (SubprocessCall ''systemctl reboot -i'')])]"

text \<open>
  One turn of the \<^verbatim>\<open>while self.alive\<close> loop of \<^verbatim>\<open>EnclosureReader.read\<close>: the
  \<^verbatim>\<open>try\<close> block, and the turn with its \<^verbatim>\<open>except Exception\<close> clause, which logs what it
  caught.
\<close>

definition read_body :: "env \<Rightarrow> (trace, unit) prog" where
  "read_body env =
     bnd (readline env) (\<lambda>line.
       let data = drop_last2 line in
       if_then (data \<noteq> []) (seq [process env data, log_info (''Reading: '' @ data)]))"

definition read_iteration :: "env \<Rightarrow> (trace, unit) prog" where
  "read_iteration env =
     except_Exception (read_body env) (\<lambda>e. log_error ''Reading error: '' (Some e))"

text \<open>
  The loop itself. \<^verbatim>\<open>alive\<close> is cleared by \<^verbatim>\<open>stop\<close> from another thread; \<open>n\<close> is the
  number of turns the loop makes before it sees the flag cleared. An exception that a
  turn does not catch leaves the loop and ends the thread: it is the result.
\<close>

fun read :: "env \<Rightarrow> nat \<Rightarrow> (trace, unit) prog" where
  "read env 0 = ret ()"
| "read env (Suc n) = bnd (read_iteration env) (\<lambda>_. read env n)"

section \<open>EnclosureWriter\<close>

text \<open>
  The writer owns \<^verbatim>\<open>Queue(size)\<close>, Python's bounded first-in first-out queue: \<^verbatim>\<open>put\<close>
  stores at the tail, \<^verbatim>\<open>get\<close> takes from the head, and the queue is full when
  \<^verbatim>\<open>0 < maxsize <= qsize\<close> (a \<^verbatim>\<open>maxsize\<close> of zero or less means no bound). The list
  \<open>commands\<close> holds the queued commands, oldest first.
\<close>

record writer =
  commands :: "string list"
  maxsize :: int

definition default_size :: int where
  "default_size = 16"

definition init_writer :: "int \<Rightarrow> writer" where
  "init_writer sz = \<lparr>commands = [], maxsize = sz\<rparr>"

definition full :: "writer \<Rightarrow> bool" where
  "full w = (0 < maxsize w \<and> maxsize w \<le> int (length (commands w)))"

text \<open>
  \<^verbatim>\<open>EnclosureWriter.write\<close> (here \<open>writer_write\<close>, \<open>write\<close> being a keyword of the
  proof language) is \<^verbatim>\<open>self.commands.put(str(command))\<close>, a blocking \<^verbatim>\<open>put\<close>
  (commands are strings, on which \<^verbatim>\<open>str\<close> is the identity). The result is \<open>None\<close> when
  the call cannot store its command in this state: the queue is full and the caller
  waits inside \<^verbatim>\<open>put\<close>, holding the command, until the writer thread has taken one.
\<close>

definition writer_write :: "string \<Rightarrow> writer \<Rightarrow> writer option" where
  "writer_write cmd w =
     (if full w then None else Some (w\<lparr>commands := commands w @ [cmd]\<rparr>))"

text \<open>
  One turn of the \<^verbatim>\<open>while self.alive\<close> loop of \<^verbatim>\<open>EnclosureWriter.flush\<close>. The statements
  after \<^verbatim>\<open>get\<close> returned \<open>cmd\<close>:
\<close>

definition flush_body :: "env \<Rightarrow> string \<Rightarrow> (trace, unit) prog" where
  "flush_body env cmd = seq [
     perform env (SerialWrite (cmd @ [CHR 0x0A])),
     log_info (''Writing: '' @ cmd),
     perform env TaskDone]"

text \<open>The \<^verbatim>\<open>try\<close> block with its \<^verbatim>\<open>except Exception\<close> clause, which logs what it caught.\<close>

definition flush_turn :: "env \<Rightarrow> string \<Rightarrow> (trace, unit) prog" where
  "flush_turn env cmd =
     except_Exception (flush_body env cmd) (\<lambda>e. log_error ''Writing error: '' (Some e))"

text \<open>
  The whole turn, on the queue and the trace; \<open>None\<close> when the queue is empty and
  \<^verbatim>\<open>get\<close> blocks. The command was taken from the queue before the write is tried, so a
  write that raises does not put it back. The turn ends in an exception when the clause
  did not catch what was raised.
\<close>

definition flush_iteration ::
  "env \<Rightarrow> writer \<times> trace \<Rightarrow> ((writer \<times> trace) \<times> (exn + unit)) option" where
  "flush_iteration env = (\<lambda>(w, tr).
     case commands w of
       [] \<Rightarrow> None
     | cmd # rest \<Rightarrow>
         Some (case flush_turn env cmd tr of (tr', r) \<Rightarrow> ((w\<lparr>commands := rest\<rparr>, tr'), r)))"

text \<open>
  The loop with no caller adding commands meanwhile: \<open>n\<close> bounds the turns made before
  \<^verbatim>\<open>alive\<close> is cleared, and the loop waits in \<^verbatim>\<open>get\<close> once the queue is empty. An
  exception that a turn does not catch leaves the loop and ends the thread.
\<close>

fun flush :: "env \<Rightarrow> nat \<Rightarrow> (writer \<times> trace, unit) prog" where
  "flush env 0 s = (s, Inr ())"
| "flush env (Suc n) s =
     (case flush_iteration env s of
        None \<Rightarrow> (s, Inr ())
      | Some (s', Inl e) \<Rightarrow> (s', Inl e)
      | Some (s', Inr _) \<Rightarrow> flush env n s')"

text \<open>
  The arguments of the calls of \<^verbatim>\<open>serial.write\<close> in a trace, whether they returned or
  raised, and the arguments of those that returned: what was written.
\<close>

fun write_calls :: "trace \<Rightarrow> string list" where
  "write_calls [] = []"
| "write_calls (Did (SerialWrite s) # tr) = s # write_calls tr"
| "write_calls (Raised (SerialWrite s) # tr) = s # write_calls tr"
| "write_calls (_ # tr) = write_calls tr"

fun written :: "trace \<Rightarrow> string list" where
  "written [] = []"
| "written (Did (SerialWrite s) # tr) = s # written tr"
| "written (_ # tr) = written tr"

text \<open>The effects that raised, and the exceptions the writer's loop logged.\<close>

fun raised_effects :: "trace \<Rightarrow> effect list" where
  "raised_effects [] = []"
| "raised_effects (Raised e # tr) = e # raised_effects tr"
| "raised_effects (_ # tr) = raised_effects tr"

fun logged_errors :: "trace \<Rightarrow> exn list" where
  "logged_errors [] = []"
| "logged_errors (Error s (Some e) # tr) = e # logged_errors tr"
| "logged_errors (_ # tr) = logged_errors tr"

subsection \<open>Callers and the writer thread together\<close>

text \<open>
  \<^verbatim>\<open>Enclosure.__handle_reset\<close> calls \<^verbatim>\<open>self.writer.write\<close> twice, the second time once the
  first call has returned. A caller's code is the list of the commands it hands to
  \<^verbatim>\<open>write\<close>, in order; each of them is one blocking \<^verbatim>\<open>put\<close>.
\<close>

definition handle_reset :: "message option \<Rightarrow> string list" where
  "handle_reset event = [''eyes.reset'', ''mouth.reset'']"

text \<open>
  Several threads call into the writer while the writer thread runs \<^verbatim>\<open>flush\<close>. A schedule
  is the order in which their steps take place: a thread calls \<^verbatim>\<open>write\<close> with a command,
  a thread calls \<^verbatim>\<open>__handle_reset\<close>, the call numbered \<open>i\<close> runs its next \<^verbatim>\<open>put\<close>, the writer
  thread makes one turn of its loop. A call is numbered by its place in \<open>callers\<close> and
  stays there when it has returned. For each call, \<open>to_put\<close> holds the commands it has
  still to put, the first being the one its current \<^verbatim>\<open>put\<close> holds, and \<open>has_put\<close> the
  commands that it has put. \<open>has_put\<close> and \<open>accepted\<close> are the bookkeeping of the model
  (no fields of the classes): \<open>accepted\<close> lists the commands in the order in which
  \<^verbatim>\<open>put\<close> stored them. \<open>thread\<close> is \<open>None\<close> while the writer thread runs and holds the
  exception that ended it otherwise.
\<close>

record caller =
  has_put :: "string list"
  to_put :: "string list"

record system =
  queue :: writer
  callers :: "caller list"
  accepted :: "string list"
  wire :: trace
  thread :: "exn option"

datatype action = Write string | Reset "message option" | Put nat | Flush

definition start :: "int \<Rightarrow> system" where
  "start sz =
     \<lparr>queue = init_writer sz, callers = [], accepted = [], wire = [], thread = None\<rparr>"

fun step :: "env \<Rightarrow> system \<Rightarrow> action \<Rightarrow> system" where
  "step env s (Write c) = s\<lparr>callers := callers s @ [\<lparr>has_put = [], to_put = [c]\<rparr>]\<rparr>"
| "step env s (Reset event) =
     s\<lparr>callers := callers s @ [\<lparr>has_put = [], to_put = handle_reset event\<rparr>]\<rparr>"
| "step env s (Put i) =
     (if i < length (callers s) then
        (case to_put (callers s ! i) of
           [] \<Rightarrow> s
         | c # cs \<Rightarrow>
             (case writer_write c (queue s) of
                None \<Rightarrow> s
              | Some w' \<Rightarrow>
                  s\<lparr>queue := w', accepted := accepted s @ [c],
                    callers := (callers s)
                      [i := \<lparr>has_put = has_put (callers s ! i) @ [c], to_put = cs\<rparr>]\<rparr>))
      else s)"
| "step env s Flush =
     (case thread s of
        Some e \<Rightarrow> s
      | None \<Rightarrow>
          (case flush_iteration env (queue s, wire s) of
             None \<Rightarrow> s
           | Some ((w', tr'), r) \<Rightarrow>
               s\<lparr>queue := w', wire := tr',
                 thread := (case r of Inl e \<Rightarrow> Some e | Inr _ \<Rightarrow> None)\<rparr>))"

definition run :: "env \<Rightarrow> system \<Rightarrow> action list \<Rightarrow> system" where
  "run env s acts = foldl (step env) s acts"

text \<open>The commands handed to \<^verbatim>\<open>write\<close> by the calls of a schedule.\<close>

fun called :: "action list \<Rightarrow> string list" where
  "called [] = []"
| "called (Write c # acts) = c # called acts"
| "called (Reset event # acts) = handle_reset event @ called acts"
| "called (_ # acts) = called acts"

text \<open>
  Two invariants of the schedules. First in, first out: the calls of \<^verbatim>\<open>serial.write\<close>
  made so far, followed by the queued commands with their line feed, are the accepted
  commands with their line feed, in the order of acceptance. Bounded: a bounded queue
  never holds more than \<^verbatim>\<open>maxsize\<close> commands.
\<close>

definition fifo :: "system \<Rightarrow> bool" where
  "fifo s \<longleftrightarrow>
     write_calls (wire s) @ map (\<lambda>c. c @ [CHR 0x0A]) (commands (queue s))
       = map (\<lambda>c. c @ [CHR 0x0A]) (accepted s)"

text \<open>The commands that calls hold and have not put yet.\<close>

definition pending :: "system \<Rightarrow> string list" where
  "pending s = concat (map to_put (callers s))"

definition bounded :: "system \<Rightarrow> bool" where
  "bounded s \<longleftrightarrow>
     (0 < maxsize (queue s) \<longrightarrow> int (length (commands (queue s))) \<le> maxsize (queue s))"

section \<open>Enclosure: the serial port and platform detection\<close>

text \<open>\<^verbatim>\<open>int(v)\<close> and \<^verbatim>\<open>str(i)\<close> on the values a configuration holds, and \<^verbatim>\<open>"text" + v\<close>.\<close>

definition digit_val :: "char \<Rightarrow> nat option" where
  "digit_val c =
     (let n = (of_char c :: nat) in if 48 \<le> n \<and> n \<le> 57 then Some (n - 48) else None)"

fun digits_val :: "string \<Rightarrow> nat \<Rightarrow> nat option" where
  "digits_val [] acc = Some acc"
| "digits_val (c # cs) acc =
     (case digit_val c of None \<Rightarrow> None | Some d \<Rightarrow> digits_val cs (10 * acc + d))"

definition is_space :: "char \<Rightarrow> bool" where
  "is_space c = ((of_char c :: nat) \<in> {9, 10, 11, 12, 13, 32})"

definition strip :: "string \<Rightarrow> string" where
  "strip s = rev (dropWhile is_space (rev (dropWhile is_space s)))"

definition parse_int :: "string \<Rightarrow> int option" where
  "parse_int s =
     (case strip s of
        [] \<Rightarrow> None
      | c # cs \<Rightarrow>
          if c = CHR ''-'' then
            (if cs = [] then None else map_option (\<lambda>n. - int n) (digits_val cs 0))
          else if c = CHR ''+'' then
            (if cs = [] then None else map_option int (digits_val cs 0))
          else map_option int (digits_val (c # cs) 0))"

fun py_int :: "pyval \<Rightarrow> exn + int" where
  "py_int PyNone = Inl TypeError"
| "py_int (PyBool b) = Inr (if b then 1 else 0)"
| "py_int (PyInt i) = Inr i"
| "py_int (PyStr s) = (case parse_int s of None \<Rightarrow> Inl ValueError | Some i \<Rightarrow> Inr i)"

fun show_nat :: "nat \<Rightarrow> string" where
  "show_nat n =
     (if n < 10 then [char_of (48 + n)] else show_nat (n div 10) @ [char_of (48 + n mod 10)])"

declare show_nat.simps [simp del]

definition show_int :: "int \<Rightarrow> string" where
  "show_int i = (if i < 0 then CHR ''-'' # show_nat (nat (- i)) else show_nat (nat i))"

fun py_str_add :: "string \<Rightarrow> pyval \<Rightarrow> exn + string" where
  "py_str_add s (PyStr t) = Inr (s @ t)"
| "py_str_add s _ = Inl TypeError"

text \<open>
  The attributes of an \<^verbatim>\<open>Enclosure\<close> object that platform detection touches. An attribute
  that was never assigned is \<open>None\<close>; \<open>serial\<close> tells whether \<^verbatim>\<open>self.serial\<close> holds an
  open port (\<^verbatim>\<open>getattr(self, 'serial', None) is not None\<close>). \<open>events\<close> is the trace of what
  the object has done.
\<close>

record enclosure =
  config :: "pydict option"
  port :: "pyval option"
  rate :: "int option"
  timeout :: "int option"
  serial :: bool
  events :: trace


definition io :: "(trace, 'a) prog \<Rightarrow> (enclosure, 'a) prog" where
  "io m = (\<lambda>self. case m (events self) of (tr', r) \<Rightarrow> (self\<lparr>events := tr'\<rparr>, r))"

definition lift :: "exn + 'a \<Rightarrow> ('s, 'a) prog" where
  "lift r = (\<lambda>s. (s, r))"

definition modify :: "('s \<Rightarrow> 's) \<Rightarrow> ('s, unit) prog" where
  "modify f = (\<lambda>s. (f s, Inr ()))"

text \<open>\<^verbatim>\<open>self.config.get(key)\<close>: \<^verbatim>\<open>None\<close> for a key the section lacks.\<close>

definition config_get :: "string \<Rightarrow> (enclosure, pyval) prog" where
  "config_get key = (\<lambda>self.
     case config self of
       None \<Rightarrow> (self, Inl AttributeError)
     | Some d \<Rightarrow> (self, Inr (case map_of d key of None \<Rightarrow> PyNone | Some v \<Rightarrow> v)))"

text \<open>\<^verbatim>\<open>Enclosure.__init_serial\<close>: the \<^verbatim>\<open>try\<close> block, the \<^verbatim>\<open>except\<close> clause, the method.\<close>

definition init_serial_try :: "env \<Rightarrow> (enclosure, unit) prog" where
  "init_serial_try env =
     bnd (config_get ''port'') (\<lambda>p.
     bnd (modify (\<lambda>self. self\<lparr>port := Some p\<rparr>)) (\<lambda>_.
     bnd (config_get ''rate'') (\<lambda>r.
     bnd (lift (py_int r)) (\<lambda>r'.
     bnd (modify (\<lambda>self. self\<lparr>rate := Some r'\<rparr>)) (\<lambda>_.
     bnd (config_get ''timeout'') (\<lambda>t.
     bnd (lift (py_int t)) (\<lambda>t'.
     bnd (modify (\<lambda>self. self\<lparr>timeout := Some t'\<rparr>)) (\<lambda>_.
     bnd (io (perform env (SerialOpen p r' t'))) (\<lambda>_.
     bnd (modify (\<lambda>self. self\<lparr>serial := True\<rparr>)) (\<lambda>_.
     bnd (lift (py_str_add ''Connected to: '' p)) (\<lambda>msg.
     io (log_info (msg @ '' rate: '' @ show_int r' @ '' timeout: '' @ show_int t')))))))))))))"

definition init_serial_except :: "exn \<Rightarrow> (enclosure, unit) prog" where
  "init_serial_except e =
     bnd (\<lambda>self. (self,
            case port self of
              None \<Rightarrow> Inl AttributeError
            | Some p \<Rightarrow> py_str_add ''It is not possible to connect to serial port: '' p)) (\<lambda>msg.
     bnd (io (log_error msg None)) (\<lambda>_.
     raise e))"

definition init_serial :: "env \<Rightarrow> (enclosure, unit) prog" where
  "init_serial env = (\<lambda>self.
     if serial self then (self, Inr ())
     else bnd (io (log_info ''Opening serial port'')) (\<lambda>_.
          try_except (init_serial_try env) init_serial_except) self)"

text \<open>
  \<^verbatim>\<open>Enclosure.detect_platform\<close>. The \<^verbatim>\<open>try\<close> block returns \<open>Some p\<close> where it executes
  \<^verbatim>\<open>return p\<close> and \<open>None\<close> where control leaves it at its end; the bare \<^verbatim>\<open>except: pass\<close>
  takes every exception to the statement after it.
\<close>

definition detect_platform_try :: "env \<Rightarrow> (enclosure, string option) prog" where
  "detect_platform_try env =
     bnd (init_serial env) (\<lambda>_.
     bnd (io (perform env (Sleep 3000))) (\<lambda>_.
     bnd (io (perform env SerialFlushInput)) (\<lambda>_.
     bnd (io (perform env SerialFlushOutput)) (\<lambda>_.
     bnd (io (perform env (SerialWrite ''system.ping''))) (\<lambda>_.
     bnd (io (perform env (Sleep 1000))) (\<lambda>_.
     bnd (io (readline env)) (\<lambda>data.
     bnd (io (log_info (''Serial response: '' @ [CHR 0x27] @ data @ [CHR 0x27]))) (\<lambda>_.
     if py_in ''Command: system.ping'' data then
       bnd (io (perform env (Sleep 500))) (\<lambda>_.
       bnd (io (perform env SerialFlushInput)) (\<lambda>_.
       ret (Some ''mycroft_mark_1'')))
     else ret None))))))))"

definition detect_platform :: "env \<Rightarrow> (enclosure, string) prog" where
  "detect_platform env =
     bnd (io (log_info ''Auto-detecting platform'')) (\<lambda>_.
     bnd (try_except (detect_platform_try env) (\<lambda>_. ret None)) (\<lambda>r.
     case r of Some p \<Rightarrow> ret p | None \<Rightarrow> ret ''unknown''))"





section \<open>Enclosure: the bus subscriptions\<close>

text \<open>
  The handlers the object registers, and the bus client it registers them with. The
  client (\<^verbatim>\<open>WebsocketClient\<close>) is defined outside this module, so its two operations are
  parameters: each takes the event name, the handler and the client's table of
  subscriptions, and returns the new table or raises. \<open>calls\<close> lists the calls made to
  the client, oldest first.
\<close>

datatype handler =
  UpdateEvents | HandleReset | MouthListeners | MouthListen | MouthReset | MouthTalk

record 'b bus =
  bus_on :: "string \<Rightarrow> handler \<Rightarrow> 'b \<Rightarrow> exn + 'b"
  bus_remove :: "string \<Rightarrow> handler \<Rightarrow> 'b \<Rightarrow> exn + 'b"

datatype call = On string handler | Remove string handler

record 'b client =
  calls :: "call list"
  registry :: 'b

definition client_on :: "'b bus \<Rightarrow> string \<Rightarrow> handler \<Rightarrow> ('b client, unit) prog" where
  "client_on B name h = (\<lambda>c.
     case bus_on B name h (registry c) of
       Inl e \<Rightarrow> (c\<lparr>calls := calls c @ [On name h]\<rparr>, Inl e)
     | Inr b \<Rightarrow> (\<lparr>calls = calls c @ [On name h], registry = b\<rparr>, Inr ()))"

definition client_remove :: "'b bus \<Rightarrow> string \<Rightarrow> handler \<Rightarrow> ('b client, unit) prog" where
  "client_remove B name h = (\<lambda>c.
     case bus_remove B name h (registry c) of
       Inl e \<Rightarrow> (c\<lparr>calls := calls c @ [Remove name h]\<rparr>, Inl e)
     | Inr b \<Rightarrow> (\<lparr>calls = calls c @ [Remove name h], registry = b\<rparr>, Inr ()))"

definition register_mouth_events :: "'b bus \<Rightarrow> ('b client, unit) prog" where
  "register_mouth_events B = seq [
     client_on B ''recognizer_loop:record_begin'' MouthListen,
     client_on B ''recognizer_loop:record_end'' MouthReset,
     client_on B ''recognizer_loop:audio_output_start'' MouthTalk,
     client_on B ''recognizer_loop:audio_output_end'' MouthReset]"

definition remove_mouth_events :: "'b bus \<Rightarrow> ('b client, unit) prog" where
  "remove_mouth_events B = seq [
     client_remove B ''recognizer_loop:record_begin'' MouthListen,
     client_remove B ''recognizer_loop:record_end'' MouthReset,
     client_remove B ''recognizer_loop:audio_output_start'' MouthTalk,
     client_remove B ''recognizer_loop:audio_output_end'' MouthReset]"

definition register_events :: "'b bus \<Rightarrow> ('b client, unit) prog" where
  "register_events B = seq [
     client_on B ''mycroft.paired'' UpdateEvents,
     client_on B ''enclosure.reset'' HandleReset,
     client_on B ''enclosure.mouth.listeners'' MouthListeners,
     register_mouth_events B]"

text \<open>
  \<^verbatim>\<open>if event and event.metadata\<close>: the event is not \<^verbatim>\<open>None\<close> and its metadata is neither
  \<^verbatim>\<open>None\<close> nor the empty dictionary.
\<close>

definition has_metadata :: "message option \<Rightarrow> bool" where
  "has_metadata event =
     (case event of
        None \<Rightarrow> False
      | Some ev \<Rightarrow> (case metadata ev of None \<Rightarrow> False | Some md \<Rightarrow> md \<noteq> []))"

definition metadata_of :: "message option \<Rightarrow> pydict" where
  "metadata_of event =
     (case event of
        None \<Rightarrow> []
      | Some ev \<Rightarrow> (case metadata ev of None \<Rightarrow> [] | Some md \<Rightarrow> md))"

definition mouth_listeners :: "'b bus \<Rightarrow> message option \<Rightarrow> ('b client, unit) prog" where
  "mouth_listeners B event =
     (if has_metadata event then
        (case map_of (metadata_of event) ''active'' of
           None \<Rightarrow> raise (KeyError ''active'')
         | Some active \<Rightarrow>
             if truthy active then register_mouth_events B else remove_mouth_events B)
      else ret ())"

definition update_events :: "'b bus \<Rightarrow> message option \<Rightarrow> ('b client, unit) prog" where
  "update_events B event =
     (if has_metadata event then
        (if truthy (case map_of (metadata_of event) ''paired'' of
                      None \<Rightarrow> PyBool False
                    | Some v \<Rightarrow> v)
         then register_mouth_events B else remove_mouth_events B)
      else ret ())"

section \<open>The dispatch table of the specification\<close>

text \<open>
  The specification describes \<^verbatim>\<open>process\<close> by a table of rules, each a substring and an
  action, applied in order. The definitions of this section follow that table, not the
  code; the theorems below compare \<open>process\<close> with them.
\<close>

datatype rule =
  MycroftStop | VolumeUp | VolumeDown | TestBegin | TestEnd | MicTest
  | UnitShutdown | UnitReboot | UnitSetwifi | FactoryReset

definition dispatch_table :: "rule list" where
  "dispatch_table =
     [MycroftStop, VolumeUp, VolumeDown, TestBegin, TestEnd, MicTest,
      UnitShutdown, UnitReboot, UnitSetwifi, FactoryReset]"

fun substring_of :: "rule \<Rightarrow> string" where
  "substring_of MycroftStop = ''mycroft.stop''"
| "substring_of VolumeUp = ''volume.up''"
| "substring_of VolumeDown = ''volume.down''"
| "substring_of TestBegin = ''system.test.begin''"
| "substring_of TestEnd = ''system.test.end''"
| "substring_of MicTest = ''mic.test''"
| "substring_of UnitShutdown = ''unit.shutdown''"
| "substring_of UnitReboot = ''unit.reboot''"
| "substring_of UnitSetwifi = ''unit.setwifi''"
| "substring_of FactoryReset = ''unit.factory-reset''"

text \<open>The action of a rule, as a program.\<close>

fun action_of :: "env \<Rightarrow> rule \<Rightarrow> (trace, unit) prog" where
  "action_of env MycroftStop = seq [
     perform env (CreateSignal ''buttonPress''),
     emit env (Message ''mycroft.stop'' None)]"
| "action_of env VolumeUp =
     emit env (Message ''IncreaseVolumeIntent'' (Some [(''play_sound'', PyBool True)]))"
| "action_of env VolumeDown =
     emit env (Message ''DecreaseVolumeIntent'' (Some [(''play_sound'', PyBool True)]))"
| "action_of env TestBegin = emit env (Message ''recognizer_loop:sleep'' None)"
| "action_of env TestEnd = emit env (Message ''recognizer_loop:wake_up'' None)"
| "action_of env MicTest = mic_test env"
| "action_of env UnitShutdown = seq [
     emit env (Message ''enclosure.eyes.timedspin'' (Some [(''length'', PyInt 12000)])),
     emit env (Message ''enclosure.mouth.reset'' None),
     perform env (SubprocessCall ''systemctl poweroff -i'')]"
| "action_of env UnitReboot = seq [
     emit env (Message ''enclosure.eyes.spin'' None),
     emit env (Message ''enclosure.mouth.reset'' None),
     perform env (SubprocessCall ''systemctl reboot -i'')]"
| "action_of env UnitSetwifi = emit env (Message ''mycroft.wifi.start'' None)"
| "action_of env FactoryReset = seq [
     perform env (SubprocessCall ''rm ~/.mycroft/identity/identity.json''),
     emit env (Message ''enclosure.eyes.spin'' None),
     emit env (Message ''enclosure.mouth.reset'' None),
     perform env (SubprocessCall ''systemctl reboot -i'')]"

text \<open>
  What an action leaves in the trace when nothing raises and \<^verbatim>\<open>getvolume\<close> returned the
  non-empty list \<open>v\<close>.
\<close>

fun events_of :: "int list \<Rightarrow> rule \<Rightarrow> event list" where
  "events_of v MycroftStop =
     [Did (CreateSignal ''buttonPress''), Did (Emit (Message ''mycroft.stop'' None))]"
| "events_of v VolumeUp =
     [Did (Emit (Message ''IncreaseVolumeIntent'' (Some [(''play_sound'', PyBool True)])))]"
| "events_of v VolumeDown =
     [Did (Emit (Message ''DecreaseVolumeIntent'' (Some [(''play_sound'', PyBool True)])))]"
| "events_of v TestBegin = [Did (Emit (Message ''recognizer_loop:sleep'' None))]"
| "events_of v TestEnd = [Did (Emit (Message ''recognizer_loop:wake_up'' None))]"
| "events_of v MicTest =
     [Did MixerNew, Volume v, Did (SetVolume 35),
      Did (Emit (Message ''speak''
        (Some [(''utterance'', PyStr ''I am testing one two three'')]))),
      Did (Sleep 500), Did (Record ''/tmp/test.wav'' 3000), Did (SetVolume (hd v)),
      Did (PlayWav ''/tmp/test.wav''), Did (Sleep 3500),
      Did (SubprocessCall ''speaker-test -P 10 -l 0 -s 1'')]"
| "events_of v UnitShutdown =
     [Did (Emit (Message ''enclosure.eyes.timedspin'' (Some [(''length'', PyInt 12000)]))),
      Did (Emit (Message ''enclosure.mouth.reset'' None)),
      Did (SubprocessCall ''systemctl poweroff -i'')]"
| "events_of v UnitReboot =
     [Did (Emit (Message ''enclosure.eyes.spin'' None)),
      Did (Emit (Message ''enclosure.mouth.reset'' None)),
      Did (SubprocessCall ''systemctl reboot -i'')]"
| "events_of v UnitSetwifi = [Did (Emit (Message ''mycroft.wifi.start'' None))]"
| "events_of v FactoryReset =
     [Did (SubprocessCall ''rm ~/.mycroft/identity/identity.json''),
      Did (Emit (Message ''enclosure.eyes.spin'' None)),
      Did (Emit (Message ''enclosure.mouth.reset'' None)),
      Did (SubprocessCall ''systemctl reboot -i'')]"

text \<open>The rules whose substring occurs in a line, in table order.\<close>

definition fired :: "string \<Rightarrow> rule list" where
  "fired data = filter (\<lambda>r. py_in (substring_of r) data) dispatch_table"

section \<open>Predicates on environments, traces and programs\<close>

text \<open>
  An environment in which no call raises; one in which what a call raises is always an
  instance of \<^verbatim>\<open>Exception\<close>; one in which no write to the serial port raises.
\<close>

definition never_raises :: "env \<Rightarrow> bool" where
  "never_raises env \<longleftrightarrow> (\<forall>tr e. \<not> raises env tr e)"

definition never_fatal :: "env \<Rightarrow> bool" where
  "never_fatal env \<longleftrightarrow> (\<forall>tr e. \<not> fatal env tr e)"

definition writes_return :: "env \<Rightarrow> bool" where
  "writes_return env \<longleftrightarrow> (\<forall>tr c. \<not> raises env tr (SerialWrite c))"

text \<open>
  The events at which a dispatch can end early: a call that raised, and an empty
  volume list, on which \<^verbatim>\<open>getvolume()[0]\<close> raises.
\<close>

fun failure :: "event \<Rightarrow> bool" where
  "failure (Raised e) = True"
| "failure (Volume v) = (v = [])"
| "failure _ = False"

text \<open>The calls of \<^verbatim>\<open>readline\<close> in a trace, returned or raised.\<close>

fun read_attempt :: "event \<Rightarrow> bool" where
  "read_attempt (Read l) = True"
| "read_attempt (Raised e) = (e = SerialReadline)"
| "read_attempt _ = False"

definition read_attempts :: "trace \<Rightarrow> nat" where
  "read_attempts tr = length (filter read_attempt tr)"

text \<open>
  A program of the reader is careful when it only appends to the trace, never calls
  \<^verbatim>\<open>readline\<close>, and raises exactly when the last event it appended is a failure, no
  earlier one being a failure; what it raises is an instance of \<^verbatim>\<open>Exception\<close> in an
  environment where every call raises such.
\<close>

definition careful :: "env \<Rightarrow> (trace, 'a) prog \<Rightarrow> bool" where
  "careful env m \<longleftrightarrow>
     (\<forall>tr tr' r. m tr = (tr', r) \<longrightarrow>
        (\<exists>new. tr' = tr @ new \<and> \<not> list_ex read_attempt new \<and>
           (case r of
              Inr _ \<Rightarrow> \<not> list_ex failure new
            | Inl e \<Rightarrow> new \<noteq> [] \<and> failure (last new) \<and> \<not> list_ex failure (butlast new)
                       \<and> (never_fatal env \<longrightarrow> is_exception e))))"


text \<open>
  Startup runs platform detection: the configuration can be read, it has an
  \<^verbatim>\<open>enclosure\<close> section, and the section records no platform. \<open>configured\<close> is the object
  as the first call of \<open>detect_platform\<close> finds it.
\<close>

definition detecting :: "env \<Rightarrow> pydict \<Rightarrow> bool" where
  "detecting env cfg \<longleftrightarrow>
     \<not> raises env [] ConfigGet \<and> stored_config env = Some cfg \<and>
     (map_of cfg ''platform'' = None \<or> map_of cfg ''platform'' = Some PyNone)"



text \<open>
  A bus client keeps a set of subscriptions when, seen through \<open>subs\<close>, its \<^verbatim>\<open>on\<close> adds
  the pair of event name and handler and its \<^verbatim>\<open>remove\<close> deletes it, neither raising.
\<close>

definition set_like :: "'b bus \<Rightarrow> ('b \<Rightarrow> (string \<times> handler) set) \<Rightarrow> bool" where
  "set_like B subs \<longleftrightarrow>
     (\<forall>name h b. \<exists>b'. bus_on B name h b = Inr b' \<and> subs b' = insert (name, h) (subs b)) \<and>
     (\<forall>name h b. \<exists>b'. bus_remove B name h b = Inr b' \<and> subs b' = subs b - {(name, h)})"

text \<open>The four subscriptions of the mouth, and a pairing event.\<close>

definition mouth_events :: "(string \<times> handler) list" where
  "mouth_events =
     [(''recognizer_loop:record_begin'', MouthListen),
      (''recognizer_loop:record_end'', MouthReset),
      (''recognizer_loop:audio_output_start'', MouthTalk),
      (''recognizer_loop:audio_output_end'', MouthReset)]"

definition paired_event :: "bool \<Rightarrow> message option" where
  "paired_event b = Some (Message ''mycroft.paired'' (Some [(''paired'', PyBool b)]))"

section \<open>Concrete configurations, environments and bus clients\<close>

text \<open>A configuration section of a Mark 1 unit whose platform is not yet recorded.\<close>

definition mark1_config :: pydict where
  "mark1_config =
     [(''port'', PyStr ''/dev/ttyAMA0''), (''rate'', PyStr ''9600''), (''timeout'', PyStr ''5'')]"

text \<open>An environment in which nothing raises and every \<^verbatim>\<open>readline\<close> returns \<open>reply\<close>.\<close>

definition quiet_env :: "string \<Rightarrow> env" where
  "quiet_env reply =
     \<lparr>raises = (\<lambda>_ _. False), fatal = (\<lambda>_ _. False), readline_data = (\<lambda>_. reply), mixer_volume = [50],
      stored_config = Some mark1_config\<rparr>"

text \<open>
  A client that keeps the subscriptions in a list: \<^verbatim>\<open>on\<close> appends, \<^verbatim>\<open>remove\<close> deletes the
  first occurrence and raises when there is none (Python's \<^verbatim>\<open>list.append\<close> and
  \<^verbatim>\<open>list.remove\<close>).
\<close>

definition appending_bus :: "(string \<times> handler) list bus" where
  "appending_bus =
     \<lparr>bus_on = (\<lambda>name h reg. Inr (reg @ [(name, h)])),
      bus_remove = (\<lambda>name h reg.
        if (name, h) \<in> set reg then Inr (remove1 (name, h) reg) else Inl ValueError)\<rparr>"

text \<open>A serial port on which every write raises.\<close>

definition broken_port :: env where
  "broken_port =
     \<lparr>raises = (\<lambda>_ e. case e of SerialWrite _ \<Rightarrow> True | _ \<Rightarrow> False),
      fatal = (\<lambda>_ _. False), readline_data = (\<lambda>_. []), mixer_volume = [50], stored_config = None\<rparr>"

text \<open>
  A serial port on which every write is interrupted: what it raises is no instance of
  \<^verbatim>\<open>Exception\<close>.
\<close>

definition interrupted_port :: env where
  "interrupted_port =
     \<lparr>raises = (\<lambda>_ e. case e of SerialWrite _ \<Rightarrow> True | _ \<Rightarrow> False),
      fatal = (\<lambda>_ e. case e of SerialWrite _ \<Rightarrow> True | _ \<Rightarrow> False),
      readline_data = (\<lambda>_. []), mixer_volume = [50], stored_config = None\<rparr>"

text \<open>
  Sixteen calls of \<^verbatim>\<open>write\<close> whose commands fill the queue, a seventeenth that finds it
  full, and a writer thread that has not run yet.
\<close>

definition crowd :: "action list" where
  "crowd =
     concat (map (\<lambda>i. [Write ''mouth.reset'', Put i]) [0..<16]) @ [Write ''eyes.blink'', Put 16]"

text \<open>A client that keeps each subscription once and ignores the removal of an absent one.\<close>

definition deduplicating_bus :: "(string \<times> handler) list bus" where
  "deduplicating_bus =
     \<lparr>bus_on = (\<lambda>name h reg. Inr (if (name, h) \<in> set reg then reg else reg @ [(name, h)])),
      bus_remove = (\<lambda>name h reg. Inr (removeAll (name, h) reg))\<rparr>"

text \<open>The signal directory cannot be written: \<^verbatim>\<open>create_signal\<close> raises.\<close>

definition no_signals :: "string \<Rightarrow> env" where
  "no_signals reply =
     \<lparr>raises = (\<lambda>_ e. case e of CreateSignal _ \<Rightarrow> True | _ \<Rightarrow> False),
      fatal = (\<lambda>_ _. False), readline_data = (\<lambda>_. reply), mixer_volume = [50], stored_config = None\<rparr>"

text \<open>There is no sound card: \<^verbatim>\<open>Mixer()\<close> raises.\<close>

definition no_mixer :: "string \<Rightarrow> env" where
  "no_mixer reply =
     \<lparr>raises = (\<lambda>_ e. e = MixerNew), fatal = (\<lambda>_ _. False),
      readline_data = (\<lambda>_. reply), mixer_volume = [50], stored_config = None\<rparr>"

text \<open>
  \<^verbatim>\<open>Mixer()\<close> raises something that is no instance of \<^verbatim>\<open>Exception\<close> (\<^verbatim>\<open>SystemExit\<close>, or in
  Python 2 an instance of an old-style class).
\<close>

definition exiting_mixer :: "string \<Rightarrow> env" where
  "exiting_mixer reply =
     \<lparr>raises = (\<lambda>_ e. e = MixerNew), fatal = (\<lambda>_ e. e = MixerNew),
      readline_data = (\<lambda>_. reply), mixer_volume = [50], stored_config = None\<rparr>"


section \<open>Properties of the writer\<close>

lemma write_calls_append: "write_calls (a @ b) = write_calls a @ write_calls b"
  by (induction a rule: write_calls.induct) simp_all

lemma written_append: "written (a @ b) = written a @ written b"
  by (induction a rule: written.induct) simp_all

lemma raised_effects_append: "raised_effects (a @ b) = raised_effects a @ raised_effects b"
  by (induction a rule: raised_effects.induct) simp_all

lemma logged_errors_append: "logged_errors (a @ b) = logged_errors a @ logged_errors b"
  by (induction a rule: logged_errors.induct) simp_all

lemma written_subseq: "subseq (written tr) (write_calls tr)"
  by (induction tr rule: write_calls.induct) (auto intro: list_emb_Cons)

lemma flush_turn_shape:
  "\<exists>new r. flush_turn env cmd tr = (tr @ new, r) \<and> write_calls new = [cmd @ [CHR 0x0A]]
     \<and> written new = (if raises env tr (SerialWrite (cmd @ [CHR 0x0A])) then [] else [cmd @ [CHR 0x0A]])
     \<and> (\<forall>e. r = Inl e \<longrightarrow> \<not> is_exception e \<and> \<not> never_fatal env)
     \<and> (never_fatal env \<longrightarrow> logged_errors new = map Failed (raised_effects new))"
  by (auto simp: flush_turn_def flush_body_def except_Exception_def bnd_def perform_def
        log_info_def log_error_def ret_def raised_by_def never_fatal_def)

lemma flush_iteration_Nil: "commands w = [] \<Longrightarrow> flush_iteration env (w, tr) = None"
  by (simp add: flush_iteration_def)

lemma flush_all:
  "never_fatal env \<Longrightarrow> length (commands w) \<le> n \<Longrightarrow>
   \<exists>new. flush env n (w, tr) = ((w\<lparr>commands := []\<rparr>, tr @ new), Inr ())
        \<and> write_calls new = map (\<lambda>c. c @ [CHR 0x0A]) (commands w)
        \<and> logged_errors new = map Failed (raised_effects new)"
proof (induction n arbitrary: w tr)
  case 0
  then show ?case by simp
next
  case (Suc n)
  show ?case
  proof (cases "commands w")
    case Nil
    then show ?thesis by (simp add: flush_iteration_Nil)
  next
    case (Cons cmd rest)
    obtain new1 r where new1: "flush_turn env cmd tr = (tr @ new1, r)"
      "write_calls new1 = [cmd @ [CHR 0x0A]]" "logged_errors new1 = map Failed (raised_effects new1)"
      "\<forall>e. r \<noteq> Inl e"
      using flush_turn_shape [of env cmd tr] Suc.prems(1) by auto
    from new1(4) have r: "r = Inr ()" by (cases r) auto
    from Cons Suc.prems have "length (commands (w\<lparr>commands := rest\<rparr>)) \<le> n" by simp
    from Suc.IH [OF Suc.prems(1) this, of "tr @ new1"] obtain new2 where new2:
      "flush env n (w\<lparr>commands := rest\<rparr>, tr @ new1)
         = ((w\<lparr>commands := []\<rparr>, (tr @ new1) @ new2), Inr ())"
      "write_calls new2 = map (\<lambda>c. c @ [CHR 0x0A]) rest"
      "logged_errors new2 = map Failed (raised_effects new2)"
      by auto
    have "flush env (Suc n) (w, tr) = ((w\<lparr>commands := []\<rparr>, tr @ (new1 @ new2)), Inr ())"
      using Cons new1(1) new2(1) r by (simp add: flush_iteration_def)
    moreover have "write_calls (new1 @ new2) = map (\<lambda>c. c @ [CHR 0x0A]) (commands w)"
      using Cons new1(2) new2(2) by (simp add: write_calls_append)
    moreover have "logged_errors (new1 @ new2) = map Failed (raised_effects (new1 @ new2))"
      using new1(3) new2(3) by (simp add: logged_errors_append raised_effects_append)
    ultimately show ?thesis by blast
  qed
qed

lemma flush_failed_write:
  "commands w = cmd # rest \<Longrightarrow> raises env tr (SerialWrite (cmd @ [CHR 0x0A])) \<Longrightarrow>
   \<not> fatal env tr (SerialWrite (cmd @ [CHR 0x0A])) \<Longrightarrow>
   flush env (Suc n) (w, tr) =
   flush env n (w\<lparr>commands := rest\<rparr>,
     tr @ [Raised (SerialWrite (cmd @ [CHR 0x0A])),
           Error ''Writing error: '' (Some (Failed (SerialWrite (cmd @ [CHR 0x0A]))))])"
  by (simp add: flush_iteration_def flush_turn_def flush_body_def except_Exception_def bnd_def
        perform_def log_error_def raised_by_def)

lemma flush_aborted_write:
  "commands w = cmd # rest \<Longrightarrow> raises env tr (SerialWrite (cmd @ [CHR 0x0A])) \<Longrightarrow>
   fatal env tr (SerialWrite (cmd @ [CHR 0x0A])) \<Longrightarrow>
   flush env (Suc n) (w, tr) =
     ((w\<lparr>commands := rest\<rparr>, tr @ [Raised (SerialWrite (cmd @ [CHR 0x0A]))]),
      Inl (Aborted (SerialWrite (cmd @ [CHR 0x0A]))))"
  by (simp add: flush_iteration_def flush_turn_def flush_body_def except_Exception_def bnd_def
        perform_def raised_by_def)

lemma flush_lets_no_Exception_out:
  "flush env n s = (s', Inl e) \<Longrightarrow> \<not> is_exception e"
proof (induction n arbitrary: s)
  case 0
  then show ?case by simp
next
  case (Suc n)
  obtain w tr where s: "s = (w, tr)" by (cases s)
  show ?case
  proof (cases "commands w")
    case Nil
    with Suc.prems s show ?thesis by (simp add: flush_iteration_def)
  next
    case (Cons cmd rest)
    obtain new r where t: "flush_turn env cmd tr = (tr @ new, r)"
      "\<forall>e. r = Inl e \<longrightarrow> \<not> is_exception e"
      using flush_turn_shape [of env cmd tr] by blast
    show ?thesis
    proof (cases r)
      case (Inl e')
      with Suc.prems s Cons t show ?thesis by (auto simp: flush_iteration_def)
    next
      case (Inr u)
      with Suc.prems s Cons t have "flush env n (w\<lparr>commands := rest\<rparr>, tr @ new) = (s', Inl e)"
        by (simp add: flush_iteration_def)
      then show ?thesis by (rule Suc.IH)
    qed
  qed
qed

text \<open>
  The write of \<^verbatim>\<open>eyes.reset\<close> is interrupted: the exception leaves the loop, nothing is
  logged, and \<^verbatim>\<open>mouth.reset\<close> stays in the queue of a thread that has ended.
\<close>

theorem interrupted_write_ends_loop_counterexample:
  "flush interrupted_port 2 (\<lparr>commands = [''eyes.reset'', ''mouth.reset''], maxsize = 16\<rparr>, []) =
     ((\<lparr>commands = [''mouth.reset''], maxsize = 16\<rparr>,
       [Raised (SerialWrite (''eyes.reset'' @ [CHR 0x0A]))]),
      Inl (Aborted (SerialWrite (''eyes.reset'' @ [CHR 0x0A]))))"
  by (simp add: numeral_2_eq_2 flush_iteration_def flush_turn_def flush_body_def
        except_Exception_def bnd_def perform_def raised_by_def interrupted_port_def)

text \<open>
  C6. When the write of a dequeued command raises an instance of \<^verbatim>\<open>Exception\<close>, the loop
  logs it and goes on with the rest of the queue: the turns that remain are made from
  the queue without that command, which is not tried again. When the write raises
  something else, the \<^verbatim>\<open>except Exception\<close> clause does not catch it: it leaves the loop
  with the rest of the queue unwritten and nothing logged. Nothing but such an exception
  ever leaves the loop. Where every call raises instances of \<^verbatim>\<open>Exception\<close> only, the loop,
  given turns enough, returns normally having made one call of \<^verbatim>\<open>serial.write\<close> for each
  queued command, in order, whichever of them raised, having emptied the queue and
  logged exactly the exceptions that were raised.
\<close>

theorem writer_survives_write_failure:
  "(commands w = cmd # rest \<and> raises env tr (SerialWrite (cmd @ [CHR 0x0A]))
      \<and> \<not> fatal env tr (SerialWrite (cmd @ [CHR 0x0A])) \<longrightarrow>
      flush env (Suc n) (w, tr) =
      flush env n (w\<lparr>commands := rest\<rparr>,
        tr @ [Raised (SerialWrite (cmd @ [CHR 0x0A])),
              Error ''Writing error: '' (Some (Failed (SerialWrite (cmd @ [CHR 0x0A]))))]))
   \<and> (commands w = cmd # rest \<and> raises env tr (SerialWrite (cmd @ [CHR 0x0A]))
      \<and> fatal env tr (SerialWrite (cmd @ [CHR 0x0A])) \<longrightarrow>
      flush env (Suc n) (w, tr) =
        ((w\<lparr>commands := rest\<rparr>, tr @ [Raised (SerialWrite (cmd @ [CHR 0x0A]))]),
         Inl (Aborted (SerialWrite (cmd @ [CHR 0x0A])))))
   \<and> (\<forall>s' e. flush env m (w, tr) = (s', Inl e) \<longrightarrow> \<not> is_exception e)
   \<and> (never_fatal env \<and> length (commands w) \<le> m \<longrightarrow>
      (\<exists>new. flush env m (w, tr) = ((w\<lparr>commands := []\<rparr>, tr @ new), Inr ())
         \<and> write_calls new = map (\<lambda>c. c @ [CHR 0x0A]) (commands w)
         \<and> logged_errors new = map Failed (raised_effects new)))"
  using flush_failed_write [where env = env and tr = tr and cmd = cmd and n = n and w = w
      and rest = rest]
    flush_aborted_write [where env = env and tr = tr and cmd = cmd and n = n and w = w
      and rest = rest]
    flush_lets_no_Exception_out [where env = env and n = m and s = "(w, tr)"]
    flush_all [where w = w and n = m and env = env and tr = tr]
  by blast

theorem writer_survives_write_failure_witness:
  "flush broken_port (Suc 1) (\<lparr>commands = [''eyes.reset'', ''mouth.reset''], maxsize = 16\<rparr>, []) =
     flush broken_port 1 (\<lparr>commands = [''mouth.reset''], maxsize = 16\<rparr>,
        [Raised (SerialWrite (''eyes.reset'' @ [CHR 0x0A])),
         Error ''Writing error: '' (Some (Failed (SerialWrite (''eyes.reset'' @ [CHR 0x0A]))))])
   \<and> flush interrupted_port (Suc 1)
        (\<lparr>commands = [''eyes.reset'', ''mouth.reset''], maxsize = 16\<rparr>, []) =
       ((\<lparr>commands = [''mouth.reset''], maxsize = 16\<rparr>,
         [Raised (SerialWrite (''eyes.reset'' @ [CHR 0x0A]))]),
        Inl (Aborted (SerialWrite (''eyes.reset'' @ [CHR 0x0A]))))
   \<and> (\<exists>new. flush broken_port 2
                 (\<lparr>commands = [''eyes.reset'', ''mouth.reset''], maxsize = 16\<rparr>, [])
               = ((\<lparr>commands = [], maxsize = 16\<rparr>, new), Inr ())
         \<and> write_calls new = [''eyes.reset'' @ [CHR 0x0A], ''mouth.reset'' @ [CHR 0x0A]]
         \<and> logged_errors new = map Failed (raised_effects new))"
proof -
  let ?w = "\<lparr>commands = [''eyes.reset'', ''mouth.reset''], maxsize = 16\<rparr>"
  have r: "raises broken_port [] (SerialWrite (''eyes.reset'' @ [CHR 0x0A]))"
    "\<not> fatal broken_port [] (SerialWrite (''eyes.reset'' @ [CHR 0x0A]))"
    "never_fatal broken_port"
    by (simp_all add: broken_port_def never_fatal_def)
  have i: "raises interrupted_port [] (SerialWrite (''eyes.reset'' @ [CHR 0x0A]))"
    "fatal interrupted_port [] (SerialWrite (''eyes.reset'' @ [CHR 0x0A]))"
    by (simp_all add: interrupted_port_def)
  from writer_survives_write_failure [where env = broken_port and tr = "[]"
      and cmd = "''eyes.reset''" and n = 1 and m = 2 and w = ?w and rest = "[''mouth.reset'']"] r
  have a: "flush broken_port (Suc 1) (?w, []) =
     flush broken_port 1 (\<lparr>commands = [''mouth.reset''], maxsize = 16\<rparr>,
        [Raised (SerialWrite (''eyes.reset'' @ [CHR 0x0A])),
         Error ''Writing error: '' (Some (Failed (SerialWrite (''eyes.reset'' @ [CHR 0x0A]))))])"
    and c: "\<exists>new. flush broken_port 2 (?w, []) = ((\<lparr>commands = [], maxsize = 16\<rparr>, new), Inr ())
         \<and> write_calls new = [''eyes.reset'' @ [CHR 0x0A], ''mouth.reset'' @ [CHR 0x0A]]
         \<and> logged_errors new = map Failed (raised_effects new)"
    by (simp_all del: flush.simps)
  from writer_survives_write_failure [where env = interrupted_port and tr = "[]"
      and cmd = "''eyes.reset''" and n = 1 and m = 2 and w = ?w and rest = "[''mouth.reset'']"] i
  have b: "flush interrupted_port (Suc 1) (?w, []) =
       ((\<lparr>commands = [''mouth.reset''], maxsize = 16\<rparr>,
         [Raised (SerialWrite (''eyes.reset'' @ [CHR 0x0A]))]),
        Inl (Aborted (SerialWrite (''eyes.reset'' @ [CHR 0x0A]))))"
    by (simp del: flush.simps)
  from a b c show ?thesis by blast
qed

lemma step_maxsize: "maxsize (queue (step env s a)) = maxsize (queue s)"
  by (cases a)
     (auto simp: writer_write_def flush_iteration_def
           split: option.splits list.splits if_splits prod.splits)

lemma step_fifo: "fifo s \<Longrightarrow> fifo (step env s a)"
proof (cases a)
  case (Write c)
  assume "fifo s" with Write show ?thesis by (simp add: fifo_def)
next
  case (Reset event)
  assume "fifo s" with Reset show ?thesis by (simp add: fifo_def)
next
  case (Put i)
  assume "fifo s" with Put show ?thesis
    by (auto simp: fifo_def writer_write_def split: option.splits list.splits if_splits)
next
  case Flush
  assume f: "fifo s"
  show ?thesis
  proof (cases "commands (queue s)")
    case Nil
    with f Flush show ?thesis by (simp add: flush_iteration_def split: option.splits)
  next
    case (Cons cmd rest)
    obtain new r where "flush_turn env cmd (wire s) = (wire s @ new, r)"
      "write_calls new = [cmd @ [CHR 0x0A]]"
      using flush_turn_shape [of env cmd "wire s"] by blast
    with f Flush Cons show ?thesis
      by (auto simp: fifo_def flush_iteration_def write_calls_append split: option.splits)
  qed
qed

lemma step_bounded: "bounded s \<Longrightarrow> bounded (step env s a)"
  by (cases a)
     (auto simp: bounded_def writer_write_def full_def flush_iteration_def
           split: option.splits list.splits if_splits prod.splits)

lemma step_written:
  assumes "writes_return env" "written (wire s) = write_calls (wire s)"
  shows "written (wire (step env s a)) = write_calls (wire (step env s a))"
proof (cases a)
  case Flush
  show ?thesis
  proof (cases "commands (queue s)")
    case Nil
    with assms Flush show ?thesis by (simp add: flush_iteration_def split: option.splits)
  next
    case (Cons cmd rest)
    obtain new r where "flush_turn env cmd (wire s) = (wire s @ new, r)"
      "write_calls new = [cmd @ [CHR 0x0A]]" "written new = [cmd @ [CHR 0x0A]]"
      using flush_turn_shape [of env cmd "wire s"] assms(1) by (auto simp: writes_return_def)
    with assms Flush Cons show ?thesis
      by (auto simp: flush_iteration_def write_calls_append written_append split: option.splits)
  qed
qed (use assms in \<open>auto split: option.splits list.splits\<close>)

lemma step_thread:
  assumes "never_fatal env" "thread s = None"
  shows "thread (step env s a) = None"
proof (cases a)
  case Flush
  show ?thesis
  proof (cases "commands (queue s)")
    case Nil
    with assms Flush show ?thesis by (simp add: flush_iteration_def)
  next
    case (Cons cmd rest)
    obtain new r where "flush_turn env cmd (wire s) = (wire s @ new, r)" "\<forall>e. r \<noteq> Inl e"
      using flush_turn_shape [of env cmd "wire s"] assms(1) by auto
    with assms Flush Cons show ?thesis
      by (cases r) (auto simp: flush_iteration_def)
  qed
qed (use assms in \<open>auto split: option.splits list.splits\<close>)

lemma pending_update:
  "i < length cs \<Longrightarrow> to_put (cs ! i) = c # rest \<Longrightarrow> to_put x = rest \<Longrightarrow>
   mset (concat (map to_put (cs[i := x]))) + {#c#} = mset (concat (map to_put cs))"
proof -
  assume a: "i < length cs" "to_put (cs ! i) = c # rest" "to_put x = rest"
  have "cs = take i cs @ cs ! i # drop (Suc i) cs"
    using a(1) by (simp add: id_take_nth_drop)
  then have "mset (concat (map to_put cs))
      = mset (concat (map to_put (take i cs))) + mset (to_put (cs ! i))
        + mset (concat (map to_put (drop (Suc i) cs)))"
    by (metis concat.simps(2) concat_append list.simps(9) map_append mset_append
        union_assoc)
  moreover have "mset (concat (map to_put (cs[i := x])))
      = mset (concat (map to_put (take i cs))) + mset (to_put x)
        + mset (concat (map to_put (drop (Suc i) cs)))"
    using a(1) by (simp add: upd_conv_take_nth_drop)
  ultimately show ?thesis using a(2,3) by simp
qed

lemma step_conserves:
  "mset (accepted (step env s a)) + mset (pending (step env s a))
     = mset (accepted s) + mset (pending s) + mset (called [a])"
proof (cases a)
  case (Write c)
  then show ?thesis by (simp add: pending_def)
next
  case (Reset event)
  then show ?thesis by (simp add: pending_def)
next
  case (Put i)
  show ?thesis
  proof (cases "i < length (callers s)")
    case False
    with Put show ?thesis by simp
  next
    case True
    show ?thesis
    proof (cases "to_put (callers s ! i)")
      case Nil
      with Put True show ?thesis by simp
    next
      case (Cons c rest)
      show ?thesis
      proof (cases "writer_write c (queue s)")
        case None
        with Put True Cons show ?thesis by simp
      next
        case (Some w')
        with Put True Cons show ?thesis
          using pending_update [of i "callers s" c rest
              "\<lparr>has_put = has_put (callers s ! i) @ [c], to_put = rest\<rparr>"]
          by (simp add: pending_def ac_simps)
      qed
    qed
  qed
next
  case Flush
  then show ?thesis by (auto simp: pending_def split: option.splits prod.splits)
qed


lemma step_has_put:
  assumes "\<forall>c \<in> set (callers s). subseq (has_put c) (accepted s)"
  shows "\<forall>c \<in> set (callers (step env s a)). subseq (has_put c) (accepted (step env s a))"
proof (cases a)
  case (Put j)
  show ?thesis
  proof (cases "j < length (callers s)")
    case False
    with Put assms show ?thesis by simp
  next
    case True
    show ?thesis
    proof (cases "to_put (callers s ! j)")
      case Nil
      with Put True assms show ?thesis by simp
    next
      case (Cons c rest)
      show ?thesis
      proof (cases "writer_write c (queue s)")
        case None
        with Put True Cons assms show ?thesis by simp
      next
        case (Some w')
        have old: "\<forall>x \<in> set (callers s). subseq (has_put x) (accepted s @ [c])"
          using assms by (auto intro: list_emb_prefix)
        have "subseq (has_put (callers s ! j) @ [c]) (accepted s @ [c])"
          using assms True by (simp add: list_emb_append_mono)
        with old Put True Cons Some show ?thesis
          by (auto dest!: set_update_subset_insert [THEN subsetD])
      qed
    qed
  qed
qed (use assms in \<open>auto split: option.splits prod.splits\<close>)

lemma called_append: "called (a @ b) = called a @ called b"
  by (induction a rule: called.induct) simp_all

lemma run_snoc: "run env s (acts @ [a]) = step env (run env s acts) a"
  by (simp add: run_def)

lemma run_append: "run env s (a @ b) = run env (run env s a) b"
  by (simp add: run_def)

lemma run_invariants:
  "fifo s \<Longrightarrow> bounded s \<Longrightarrow>
   fifo (run env s acts) \<and> bounded (run env s acts)
   \<and> maxsize (queue (run env s acts)) = maxsize (queue s)
   \<and> mset (accepted (run env s acts)) + mset (pending (run env s acts))
       = mset (accepted s) + mset (pending s) + mset (called acts)"
proof (induction acts rule: rev_induct)
  case Nil
  then show ?case by (simp add: run_def)
next
  case (snoc a acts)
  then have IH: "fifo (run env s acts)" "bounded (run env s acts)"
    "maxsize (queue (run env s acts)) = maxsize (queue s)"
    "mset (accepted (run env s acts)) + mset (pending (run env s acts))
       = mset (accepted s) + mset (pending s) + mset (called acts)"
    by auto
  show ?case
    using IH step_fifo [OF IH(1), of env a] step_bounded [OF IH(2), of env a]
      step_maxsize [of env "run env s acts" a] step_conserves [of env "run env s acts" a]
    by (simp add: run_snoc called_append ac_simps)
qed

lemma run_written:
  "writes_return env \<Longrightarrow> written (wire s) = write_calls (wire s) \<Longrightarrow>
   written (wire (run env s acts)) = write_calls (wire (run env s acts))"
  by (induction acts rule: rev_induct) (simp_all add: run_def step_written)

lemma run_thread:
  "never_fatal env \<Longrightarrow> thread s = None \<Longrightarrow> thread (run env s acts) = None"
  by (induction acts rule: rev_induct) (simp_all add: run_def step_thread)


lemma run_has_put:
  "\<forall>c \<in> set (callers s). subseq (has_put c) (accepted s) \<Longrightarrow>
   \<forall>c \<in> set (callers (run env s acts)). subseq (has_put c) (accepted (run env s acts))"
proof (induction acts rule: rev_induct)
  case Nil
  then show ?case by (simp add: run_def)
next
  case (snoc a acts)
  then show ?case using step_has_put [of "run env s acts" env a] by (simp add: run_snoc)
qed

lemma start_invariants: "fifo (start sz) \<and> bounded (start sz)"
  by (simp add: fifo_def bounded_def start_def init_writer_def)

lemma put_with_room:
  "\<not> full (queue s) \<Longrightarrow> i < length (callers s) \<Longrightarrow> to_put (callers s ! i) = c # cs \<Longrightarrow>
   step env s (Put i) =
     s\<lparr>queue := (queue s)\<lparr>commands := commands (queue s) @ [c]\<rparr>,
       accepted := accepted s @ [c],
       callers := (callers s)[i := \<lparr>has_put = has_put (callers s ! i) @ [c], to_put = cs\<rparr>]\<rparr>"
  by (simp add: writer_write_def)

lemma put_blocked: "full (queue s) \<Longrightarrow> step env s (Put i) = s"
  by (simp add: writer_write_def split: list.splits)

lemma flush_makes_room:
  "bounded s \<Longrightarrow> full (queue s) \<Longrightarrow> thread s = None \<Longrightarrow>
   \<not> full (queue (step env s Flush))
   \<and> accepted (step env s Flush) = accepted s \<and> callers (step env s Flush) = callers s"
  by (cases "commands (queue s)")
     (auto simp: full_def bounded_def flush_iteration_def split: prod.splits)

lemma blocked_until_flush:
  assumes "bounded s" "full (queue s)" "thread s = None" "i < length (callers s)"
    "to_put (callers s ! i) = c # cs"
  shows "accepted (run env s [Flush, Put i]) = accepted s @ [c]
       \<and> callers (run env s [Flush, Put i])
           = (callers s)[i := \<lparr>has_put = has_put (callers s ! i) @ [c], to_put = cs\<rparr>]"
proof -
  let ?t = "step env s Flush"
  have t: "\<not> full (queue ?t)" "accepted ?t = accepted s" "callers ?t = callers s"
    using flush_makes_room [OF assms(1-3), of env] by auto
  have "step env ?t (Put i) =
     ?t\<lparr>queue := (queue ?t)\<lparr>commands := commands (queue ?t) @ [c]\<rparr>,
       accepted := accepted ?t @ [c],
       callers := (callers ?t)[i := \<lparr>has_put = has_put (callers ?t ! i) @ [c], to_put = cs\<rparr>]\<rparr>"
    by (rule put_with_room) (use t assms in simp_all)
  then show ?thesis using t by (simp add: run_def)
qed

lemma flush_keeps_room:
  "bounded s \<Longrightarrow> thread s = None \<Longrightarrow> 0 < maxsize (queue s) \<Longrightarrow>
   \<not> full (queue (step env s Flush))
   \<and> accepted (step env s Flush) = accepted s \<and> callers (step env s Flush) = callers s"
  by (cases "commands (queue s)")
     (auto simp: full_def bounded_def flush_iteration_def split: prod.splits)

lemma turn_then_put:
  assumes "bounded s" "thread s = None" "0 < maxsize (queue s)" "i < length (callers s)"
    "to_put (callers s ! i) = c # cs"
  shows "accepted (run env s [Flush, Put i]) = accepted s @ [c]
       \<and> callers (run env s [Flush, Put i])
           = (callers s)[i := \<lparr>has_put = has_put (callers s ! i) @ [c], to_put = cs\<rparr>]"
proof -
  let ?t = "step env s Flush"
  have t: "\<not> full (queue ?t)" "accepted ?t = accepted s" "callers ?t = callers s"
    using flush_keeps_room [OF assms(1-3), of env] by auto
  have "step env ?t (Put i) =
     ?t\<lparr>queue := (queue ?t)\<lparr>commands := commands (queue ?t) @ [c]\<rparr>,
       accepted := accepted ?t @ [c],
       callers := (callers ?t)[i := \<lparr>has_put = has_put (callers ?t ! i) @ [c], to_put = cs\<rparr>]\<rparr>"
    by (rule put_with_room) (use t assms in simp_all)
  then show ?thesis using t by (simp add: run_def)
qed

lemma flush_drains:
  "never_fatal env \<Longrightarrow> thread s = None \<Longrightarrow>
   commands (queue (run env s (replicate n Flush))) = drop n (commands (queue s))
   \<and> accepted (run env s (replicate n Flush)) = accepted s"
proof (induction n)
  case 0
  then show ?case by (simp add: run_def)
next
  case (Suc n)
  let ?t = "run env s (replicate n Flush)"
  have "replicate (Suc n) Flush = replicate n Flush @ [Flush]"
    by (simp add: replicate_append_same)
  then have r: "run env s (replicate (Suc n) Flush) = step env ?t Flush"
    by (simp only: run_snoc)
  have t: "thread ?t = None" using Suc.prems by (rule run_thread)
  have "commands (queue (step env ?t Flush)) = drop 1 (commands (queue ?t))
      \<and> accepted (step env ?t Flush) = accepted ?t"
    using t by (cases "commands (queue ?t)") (auto simp: flush_iteration_def split: prod.splits)
  with Suc r show ?case by simp
qed

lemma reachable:
  assumes "s = run env (start default_size) acts"
  shows "fifo s" "bounded s" "maxsize (queue s) = 16"
    "mset (accepted s) + mset (pending s) = mset (called acts)"
    "never_fatal env \<Longrightarrow> thread s = None"
    "writes_return env \<Longrightarrow> written (wire s) = write_calls (wire s)"
    "\<forall>c \<in> set (callers s). subseq (has_put c) (accepted s)"
proof -
  show "fifo s" "bounded s" "maxsize (queue s) = 16"
    "mset (accepted s) + mset (pending s) = mset (called acts)"
    using run_invariants [of "start default_size" env acts] start_invariants [of default_size]
    by (simp_all add: assms start_def init_writer_def default_size_def pending_def)
  show "never_fatal env \<Longrightarrow> thread s = None"
    unfolding assms by (rule run_thread) (simp_all add: start_def)
  show "writes_return env \<Longrightarrow> written (wire s) = write_calls (wire s)"
    unfolding assms by (rule run_written) (simp_all add: start_def)
  show "\<forall>c \<in> set (callers s). subseq (has_put c) (accepted s)"
    unfolding assms by (rule run_has_put) (simp add: start_def)
qed

text \<open>
  On a port whose writes raise, \<^verbatim>\<open>eyes.reset\<close> is enqueued, taken by the writer thread and
  never written: the queue is empty, the thread runs, and nothing was written.
\<close>

theorem failed_write_not_written_counterexample:
  "accepted (run broken_port (start default_size) [Write ''eyes.reset'', Put 0, Flush])
     = [''eyes.reset'']
   \<and> commands (queue (run broken_port (start default_size) [Write ''eyes.reset'', Put 0, Flush]))
     = []
   \<and> thread (run broken_port (start default_size) [Write ''eyes.reset'', Put 0, Flush]) = None
   \<and> written (wire (run broken_port (start default_size) [Write ''eyes.reset'', Put 0, Flush]))
     = []"
  by (simp add: run_def start_def init_writer_def default_size_def writer_write_def full_def
        flush_iteration_def flush_turn_def flush_body_def except_Exception_def bnd_def
        perform_def log_error_def raised_by_def broken_port_def)

text \<open>
  C3. The queue of a writer of the default size, under any schedule of callers and
  writer turns and whatever the serial port does. The calls of \<^verbatim>\<open>serial.write\<close> followed
  by what is still queued are the accepted commands, each with a line feed appended, in
  the order in which they were accepted. What was written is a subsequence of that: a
  command whose write raised is missing from it. On a port whose writes do not raise,
  what was written followed by what is still queued is the accepted sequence, and once
  the writer thread has made a turn for each queued command, everything accepted has
  been written, in the order of acceptance. The queue never holds more than 16
  commands. Every command handed to \<^verbatim>\<open>write\<close> has been accepted or is held by its call,
  none is lost. A \<^verbatim>\<open>put\<close> on a queue with room stores its command at the tail at once; a
  \<^verbatim>\<open>put\<close> on a full queue changes nothing and the caller keeps waiting; after the next
  turn of a running writer thread the \<^verbatim>\<open>put\<close> stores its command.
\<close>

theorem outbound_queue_fifo:
  assumes "s = run env (start default_size) acts"
  shows "write_calls (wire s) @ map (\<lambda>c. c @ [CHR 0x0A]) (commands (queue s))
           = map (\<lambda>c. c @ [CHR 0x0A]) (accepted s)
       \<and> subseq (written (wire s)) (map (\<lambda>c. c @ [CHR 0x0A]) (accepted s))
       \<and> (writes_return env \<longrightarrow>
            written (wire s) @ map (\<lambda>c. c @ [CHR 0x0A]) (commands (queue s))
              = map (\<lambda>c. c @ [CHR 0x0A]) (accepted s))
       \<and> (writes_return env \<and> never_fatal env \<longrightarrow>
            written (wire (run env s (replicate (length (commands (queue s))) Flush)))
              = map (\<lambda>c. c @ [CHR 0x0A]) (accepted s))
       \<and> length (commands (queue s)) \<le> 16
       \<and> mset (called acts) = mset (accepted s) + mset (pending s)
       \<and> (\<not> full (queue s) \<and> i < length (callers s) \<and> to_put (callers s ! i) = c # cs \<longrightarrow>
            step env s (Put i) =
              s\<lparr>queue := (queue s)\<lparr>commands := commands (queue s) @ [c]\<rparr>,
                accepted := accepted s @ [c],
                callers := (callers s)
                  [i := \<lparr>has_put = has_put (callers s ! i) @ [c], to_put = cs\<rparr>]\<rparr>)
       \<and> (full (queue s) \<longrightarrow> step env s (Put i) = s)
       \<and> (full (queue s) \<and> thread s = None \<and> i < length (callers s)
            \<and> to_put (callers s ! i) = c # cs \<longrightarrow>
            accepted (run env s [Flush, Put i]) = accepted s @ [c]
          \<and> callers (run env s [Flush, Put i])
              = (callers s)[i := \<lparr>has_put = has_put (callers s ! i) @ [c], to_put = cs\<rparr>])"
proof -
  note inv = reachable [OF assms]
  let ?nl = "\<lambda>c. c @ [CHR 0x0A]"
  have a: "write_calls (wire s) @ map ?nl (commands (queue s)) = map ?nl (accepted s)"
    using inv(1) by (simp add: fifo_def)
  have "subseq (written (wire s)) (write_calls (wire s) @ map ?nl (commands (queue s)))"
    using written_subseq [of "wire s"] by (rule list_emb_prefix)
  then have b: "subseq (written (wire s)) (map ?nl (accepted s))"
    by (simp only: a)
  have c: "writes_return env \<longrightarrow>
      written (wire s) @ map ?nl (commands (queue s)) = map ?nl (accepted s)"
    using a inv(6) by simp
  have d: "writes_return env \<and> never_fatal env \<longrightarrow>
      written (wire (run env s (replicate (length (commands (queue s))) Flush)))
        = map ?nl (accepted s)"
  proof
    assume h: "writes_return env \<and> never_fatal env"
    let ?t = "run env s (replicate (length (commands (queue s))) Flush)"
    have t: "?t = run env (start default_size) (acts @ replicate (length (commands (queue s))) Flush)"
      by (simp add: assms run_append)
    have "commands (queue ?t) = []" "accepted ?t = accepted s"
      using flush_drains [of env s "length (commands (queue s))"] h inv(5) by simp_all
    moreover have "write_calls (wire ?t) @ map ?nl (commands (queue ?t)) = map ?nl (accepted ?t)"
      using reachable(1) [OF t] by (simp add: fifo_def)
    moreover have "written (wire ?t) = write_calls (wire ?t)"
      using reachable(6) [OF t] h by simp
    ultimately show "written (wire ?t) = map ?nl (accepted s)" by simp
  qed
  have e: "length (commands (queue s)) \<le> 16"
    using inv(2,3) by (simp add: bounded_def)
  have f: "mset (called acts) = mset (accepted s) + mset (pending s)"
    using inv(4) by simp
  have g: "\<not> full (queue s) \<and> i < length (callers s) \<and> to_put (callers s ! i) = c # cs \<longrightarrow>
            step env s (Put i) =
              s\<lparr>queue := (queue s)\<lparr>commands := commands (queue s) @ [c]\<rparr>,
                accepted := accepted s @ [c],
                callers := (callers s)
                  [i := \<lparr>has_put = has_put (callers s ! i) @ [c], to_put = cs\<rparr>]\<rparr>"
    using put_with_room [of s i c cs env] by blast
  have h: "full (queue s) \<longrightarrow> step env s (Put i) = s"
    using put_blocked [of s env i] by blast
  have k: "full (queue s) \<and> thread s = None \<and> i < length (callers s)
            \<and> to_put (callers s ! i) = c # cs \<longrightarrow>
            accepted (run env s [Flush, Put i]) = accepted s @ [c]
          \<and> callers (run env s [Flush, Put i])
              = (callers s)[i := \<lparr>has_put = has_put (callers s ! i) @ [c], to_put = cs\<rparr>]"
    using turn_then_put [OF inv(2), of i c cs env] inv(3) by simp
  from a b c d e f g h k show ?thesis by blast
qed

lemma crowd_state:
  "run (quiet_env []) (start default_size) crowd =
     \<lparr>queue = \<lparr>commands = replicate 16 ''mouth.reset'', maxsize = 16\<rparr>,
      callers = replicate 16 \<lparr>has_put = [''mouth.reset''], to_put = []\<rparr>
                @ [\<lparr>has_put = [], to_put = [''eyes.blink'']\<rparr>],
      accepted = replicate 16 ''mouth.reset'', wire = [], thread = None\<rparr>"
  by code_simp

text \<open>
  On a port that never raises: a first call finds room; the seventeenth call finds the
  queue full, waits, and is served after the writer's turn; and once the writer has made
  its sixteen turns the sixteen accepted commands have been written.
\<close>

theorem outbound_queue_fifo_witness:
  "step (quiet_env []) (run (quiet_env []) (start default_size) [Write ''eyes.reset'']) (Put 0)
     = (run (quiet_env []) (start default_size) [Write ''eyes.reset''])
         \<lparr>queue := \<lparr>commands = [''eyes.reset''], maxsize = 16\<rparr>,
           accepted := [''eyes.reset''],
           callers := [\<lparr>has_put = [''eyes.reset''], to_put = []\<rparr>]\<rparr>
   \<and> full (queue (run (quiet_env []) (start default_size) crowd))
   \<and> length (commands (queue (run (quiet_env []) (start default_size) crowd))) \<le> 16
   \<and> step (quiet_env []) (run (quiet_env []) (start default_size) crowd) (Put 16)
       = run (quiet_env []) (start default_size) crowd
   \<and> accepted (run (quiet_env []) (run (quiet_env []) (start default_size) crowd) [Flush, Put 16])
       = replicate 16 ''mouth.reset'' @ [''eyes.blink'']
   \<and> written (wire (run (quiet_env []) (run (quiet_env []) (start default_size) crowd)
                      (replicate 16 Flush)))
       = replicate 16 (''mouth.reset'' @ [CHR 0x0A])"
proof -
  let ?e = "quiet_env []"
  let ?s = "run ?e (start default_size) crowd"
  let ?r = "run ?e (start default_size) [Write ''eyes.reset'']"
  have q: "writes_return ?e" "never_fatal ?e"
    by (simp_all add: writes_return_def never_fatal_def quiet_env_def)
  have r: "?r = \<lparr>queue = \<lparr>commands = [], maxsize = 16\<rparr>,
      callers = [\<lparr>has_put = [], to_put = [''eyes.reset'']\<rparr>],
      accepted = [], wire = [], thread = None\<rparr>"
    by (simp add: run_def start_def init_writer_def default_size_def)
  from outbound_queue_fifo [OF refl, where env = ?e and acts = "[Write ''eyes.reset'']"
      and i = 0 and c = "''eyes.reset''" and cs = "[]"]
  have "\<not> full (queue ?r) \<and> 0 < length (callers ?r) \<and> to_put (callers ?r ! 0) = [''eyes.reset'']
      \<longrightarrow> step ?e ?r (Put 0) =
              ?r\<lparr>queue := (queue ?r)\<lparr>commands := commands (queue ?r) @ [''eyes.reset'']\<rparr>,
                accepted := accepted ?r @ [''eyes.reset''],
                callers := (callers ?r)
                  [0 := \<lparr>has_put = has_put (callers ?r ! 0) @ [''eyes.reset''], to_put = []\<rparr>]\<rparr>"
    by blast
  then have a: "step ?e ?r (Put 0)
     = ?r\<lparr>queue := \<lparr>commands = [''eyes.reset''], maxsize = 16\<rparr>,
           accepted := [''eyes.reset''],
           callers := [\<lparr>has_put = [''eyes.reset''], to_put = []\<rparr>]\<rparr>"
    by (simp add: r full_def)
  have f: "full (queue ?s)" "thread ?s = None" "16 < length (callers ?s)"
    "to_put (callers ?s ! 16) = [''eyes.blink'']" "accepted ?s = replicate 16 ''mouth.reset''"
    "length (commands (queue ?s)) = 16"
    by (simp_all add: crowd_state full_def nth_append)
  from outbound_queue_fifo [OF refl, where env = ?e and acts = crowd
      and i = 16 and c = "''eyes.blink''" and cs = "[]"] f q
  have b: "length (commands (queue ?s)) \<le> 16" "step ?e ?s (Put 16) = ?s"
    "accepted (run ?e ?s [Flush, Put 16]) = replicate 16 ''mouth.reset'' @ [''eyes.blink'']"
    "written (wire (run ?e ?s (replicate 16 Flush))) = replicate 16 (''mouth.reset'' @ [CHR 0x0A])"
    by (simp_all del: step.simps replicate.simps add: map_replicate)
  from a f(1) b show ?thesis by blast
qed



section \<open>Properties of the reader\<close>

lemma drop_last2_append2: "drop_last2 (content @ [c1, c2]) = content"
  by (simp add: drop_last2_def)




lemma bnd_ret [simp]: "bnd (ret x) f = f x"
  by (simp add: bnd_def ret_def)

lemma seq_map_filter:
  "seq (map f (filter P rs)) = seq (map (\<lambda>r. if_then (P r) (f r)) rs)"
  by (induction rs) (simp_all add: if_then_def)

lemma process_table:
  "process env data =
     seq (emit env (Message data None) # map (action_of env) (fired data))"
proof -
  have "seq (map (action_of env) (fired data)) =
        seq (map (\<lambda>r. if_then (py_in (substring_of r) data) (action_of env r)) dispatch_table)"
    by (simp only: fired_def seq_map_filter)
  then show ?thesis
    by (simp add: process_def dispatch_table_def)
qed

lemma action_events:
  "never_raises env \<Longrightarrow> mixer_volume env = v # vs \<Longrightarrow>
   action_of env r tr = (tr @ events_of (v # vs) r, Inr ())"
  by (cases r)
     (simp_all add: never_raises_def mic_test_def getvolume_def emit_def perform_def bnd_def ret_def)

lemma actions_events:
  "never_raises env \<Longrightarrow> mixer_volume env = v # vs \<Longrightarrow>
   seq (map (action_of env) rs) tr = (tr @ concat (map (events_of (v # vs)) rs), Inr ())"
  by (induction rs arbitrary: tr) (simp_all add: ret_def bnd_def action_events)

lemma fired_complete: "distinct (fired data) \<and> set (fired data) = {r. py_in (substring_of r) data}"
proof -
  have "distinct dispatch_table" by (simp add: dispatch_table_def)
  moreover have "set dispatch_table = UNIV"
  proof -
    have "r \<in> set dispatch_table" for r by (cases r) (simp_all add: dispatch_table_def)
    then show ?thesis by blast
  qed
  ultimately show ?thesis by (simp add: fired_def)
qed

lemma process_events:
  assumes "never_raises env" "mixer_volume env = v # vs"
  shows "process env data tr =
          (tr @ Did (Emit (Message data None)) # concat (map (events_of (v # vs)) (fired data)),
           Inr ())"
proof -
  have "emit env (Message data None) tr = (tr @ [Did (Emit (Message data None))], Inr ())"
    using assms(1) by (simp add: emit_def perform_def never_raises_def)
  then show ?thesis
    using actions_events [OF assms] by (simp add: process_table bnd_def)
qed

text \<open>
  C4, as stated: every rule whose substring is in the line fires once. The line
  \<^verbatim>\<open>mycroft.stop volume.up\<close> contains \<^verbatim>\<open>volume.up\<close>, yet where \<^verbatim>\<open>create_signal\<close> raises in the
  first rule the dispatch ends there and the volume rule does not fire.
\<close>

theorem later_rule_skipped_counterexample:
  "py_in ''mycroft.stop'' ''mycroft.stop volume.up'' \<and> py_in ''volume.up'' ''mycroft.stop volume.up''
   \<and> process (no_signals []) ''mycroft.stop volume.up'' [] =
       ([Did (Emit (Message ''mycroft.stop volume.up'' None)),
         Raised (CreateSignal ''buttonPress'')],
        Inl (Failed (CreateSignal ''buttonPress'')))"
  by code_simp

text \<open>
  C4, amended. \<open>process\<close> publishes the raw line and then runs the actions of the rules
  whose substring occurs in the line, in table order and each once, as one sequence
  that the first exception ends. Every rule whose substring occurs in the line is in
  that sequence, once. When nothing raises the trace is the raw line followed by the
  events of each of these rules, in table order.
\<close>

theorem dispatch_in_table_order:
  "process env data = seq (emit env (Message data None) # map (action_of env) (fired data))
   \<and> distinct (fired data) \<and> set (fired data) = {r. py_in (substring_of r) data}
   \<and> (never_raises env \<and> mixer_volume env = v # vs \<longrightarrow>
        process env data tr =
          (tr @ Did (Emit (Message data None)) # concat (map (events_of (v # vs)) (fired data)),
           Inr ()))"
  using process_table fired_complete process_events by blast

lemma fired_example: "fired ''volume.up mic.test'' = [VolumeUp, MicTest]"
  by code_simp

theorem dispatch_in_table_order_witness:
  "process (quiet_env []) ''volume.up mic.test'' [] =
     ([Did (Emit (Message ''volume.up mic.test'' None)),
       Did (Emit (Message ''IncreaseVolumeIntent'' (Some [(''play_sound'', PyBool True)]))),
       Did MixerNew, Volume [50], Did (SetVolume 35),
       Did (Emit (Message ''speak''
         (Some [(''utterance'', PyStr ''I am testing one two three'')]))),
       Did (Sleep 500), Did (Record ''/tmp/test.wav'' 3000), Did (SetVolume 50),
       Did (PlayWav ''/tmp/test.wav''), Did (Sleep 3500),
       Did (SubprocessCall ''speaker-test -P 10 -l 0 -s 1'')],
      Inr ())"
proof -
  have h: "never_raises (quiet_env [])" "mixer_volume (quiet_env []) = 50 # []"
    by (simp_all add: never_raises_def quiet_env_def)
  from dispatch_in_table_order [where env = "quiet_env []" and data = "''volume.up mic.test''"
      and v = 50 and vs = "[]" and tr = "[]"] h
  have "process (quiet_env []) ''volume.up mic.test'' [] =
     ([] @ Did (Emit (Message ''volume.up mic.test'' None))
        # concat (map (events_of [50]) (fired ''volume.up mic.test'')), Inr ())"
    by blast
  then show ?thesis by (simp add: fired_example)
qed

lemma careful_perform: "e \<noteq> SerialReadline \<Longrightarrow> careful env (perform env e)"
  by (auto simp: careful_def perform_def raised_by_def never_fatal_def)

lemma careful_log_info: "careful env (log_info s)"
  by (auto simp: careful_def log_info_def)

lemma careful_ret: "careful env (ret x)"
  by (auto simp: careful_def ret_def)

lemma list_ex_append: "list_ex P (xs @ ys) \<longleftrightarrow> list_ex P xs \<or> list_ex P ys"
  by (auto simp: list_ex_iff)

lemma careful_bnd:
  assumes "careful env m" and "\<And>x. careful env (f x)"
  shows "careful env (bnd m f)"
  unfolding careful_def
proof (intro allI impI)
  fix tr tr' r
  assume run: "bnd m f tr = (tr', r)"
  obtain tr1 r1 where m: "m tr = (tr1, r1)" by (cases "m tr")
  from assms(1) m obtain n1 where n1: "tr1 = tr @ n1" "\<not> list_ex read_attempt n1"
    "case r1 of Inr _ \<Rightarrow> \<not> list_ex failure n1
     | Inl e \<Rightarrow> n1 \<noteq> [] \<and> failure (last n1) \<and> \<not> list_ex failure (butlast n1)
                \<and> (never_fatal env \<longrightarrow> is_exception e)"
    unfolding careful_def by blast
  show "\<exists>new. tr' = tr @ new \<and> \<not> list_ex read_attempt new \<and>
          (case r of Inr _ \<Rightarrow> \<not> list_ex failure new
           | Inl e \<Rightarrow> new \<noteq> [] \<and> failure (last new) \<and> \<not> list_ex failure (butlast new)
                      \<and> (never_fatal env \<longrightarrow> is_exception e))"
  proof (cases r1)
    case (Inl e)
    with run m have "tr' = tr1" "r = Inl e" by (simp_all add: bnd_def)
    with n1 Inl show ?thesis by auto
  next
    case (Inr x)
    with run m have fx: "f x tr1 = (tr', r)" by (simp add: bnd_def)
    from assms(2) [of x] fx obtain n2 where n2: "tr' = tr1 @ n2" "\<not> list_ex read_attempt n2"
      "case r of Inr _ \<Rightarrow> \<not> list_ex failure n2
       | Inl e \<Rightarrow> n2 \<noteq> [] \<and> failure (last n2) \<and> \<not> list_ex failure (butlast n2)
                  \<and> (never_fatal env \<longrightarrow> is_exception e)"
      unfolding careful_def by blast
    have "tr' = tr @ (n1 @ n2)" using n1(1) n2(1) by simp
    moreover have "\<not> list_ex read_attempt (n1 @ n2)"
      using n1(2) n2(2) by (simp add: list_ex_append)
    moreover have "case r of Inr _ \<Rightarrow> \<not> list_ex failure (n1 @ n2)
       | Inl e \<Rightarrow> n1 @ n2 \<noteq> [] \<and> failure (last (n1 @ n2))
                  \<and> \<not> list_ex failure (butlast (n1 @ n2))
                  \<and> (never_fatal env \<longrightarrow> is_exception e)"
      using n1(3) n2(3) Inr
      by (cases r) (auto simp: list_ex_append butlast_append)
    ultimately show ?thesis by blast
  qed
qed

lemma careful_seq: "(\<And>m. m \<in> set ms \<Longrightarrow> careful env m) \<Longrightarrow> careful env (seq ms)"
  by (induction ms) (simp_all add: careful_ret careful_bnd)

lemma careful_if_then: "careful env m \<Longrightarrow> careful env (if_then c m)"
  by (simp add: if_then_def careful_ret)

lemma careful_volume:
  assumes "\<And>v vs. careful env (f (v # vs))" and "f [] = raise IndexError"
  shows "careful env (bnd (getvolume env) f)"
  unfolding careful_def
proof (intro allI impI)
  fix tr tr' r
  assume run: "bnd (getvolume env) f tr = (tr', r)"
  show "\<exists>new. tr' = tr @ new \<and> \<not> list_ex read_attempt new \<and>
          (case r of Inr _ \<Rightarrow> \<not> list_ex failure new
           | Inl e \<Rightarrow> new \<noteq> [] \<and> failure (last new) \<and> \<not> list_ex failure (butlast new)
                      \<and> (never_fatal env \<longrightarrow> is_exception e))"
  proof (cases "raises env tr GetVolume")
    case True
    with run show ?thesis
      by (auto simp: bnd_def getvolume_def raised_by_def never_fatal_def)
  next
    case False
    show ?thesis
    proof (cases "mixer_volume env")
      case Nil
      with False run assms(2) show ?thesis by (auto simp: bnd_def getvolume_def raise_def)
    next
      case (Cons v vs)
      with False run have fx: "f (v # vs) (tr @ [Volume (v # vs)]) = (tr', r)"
        by (simp add: bnd_def getvolume_def)
      from assms(1) [of v vs] fx obtain n2 where n2: "tr' = (tr @ [Volume (v # vs)]) @ n2"
        "\<not> list_ex read_attempt n2"
        "case r of Inr _ \<Rightarrow> \<not> list_ex failure n2
         | Inl e \<Rightarrow> n2 \<noteq> [] \<and> failure (last n2) \<and> \<not> list_ex failure (butlast n2)
                  \<and> (never_fatal env \<longrightarrow> is_exception e)"
        unfolding careful_def by blast
      have "tr' = tr @ (Volume (v # vs) # n2)" using n2(1) by simp
      moreover have "\<not> list_ex read_attempt (Volume (v # vs) # n2)" using n2(2) by simp
      moreover have "case r of Inr _ \<Rightarrow> \<not> list_ex failure (Volume (v # vs) # n2)
         | Inl e \<Rightarrow> Volume (v # vs) # n2 \<noteq> [] \<and> failure (last (Volume (v # vs) # n2))
                  \<and> \<not> list_ex failure (butlast (Volume (v # vs) # n2))
                  \<and> (never_fatal env \<longrightarrow> is_exception e)"
        using n2(3) by (cases r) auto
      ultimately show ?thesis by blast
    qed
  qed
qed

lemma careful_mic_test: "careful env (mic_test env)"
  unfolding mic_test_def
  apply (rule careful_bnd)
   apply (simp add: careful_perform)
  apply (rule careful_volume)
   apply (auto simp: emit_def intro!: careful_bnd careful_ret careful_perform)
  done

lemma careful_action: "careful env (action_of env r)"
  by (cases r)
     (auto simp: emit_def careful_mic_test intro!: careful_bnd careful_ret careful_perform)

lemma careful_actions: "careful env (seq (map (action_of env) rs))"
  by (rule careful_seq) (auto simp: careful_action)

lemma careful_process: "careful env (process env data)"
  unfolding process_table
  by (rule careful_seq) (auto simp: emit_def careful_action intro: careful_perform)

lemma process_stops_at_failure:
  "process env data tr = (tr', Inl e) \<Longrightarrow>
   \<exists>new. tr' = tr @ new \<and> new \<noteq> [] \<and> failure (last new) \<and> \<not> list_ex failure (butlast new)"
  using careful_process [of env data] unfolding careful_def by fastforce

lemma read_attempts_append: "read_attempts (a @ b) = read_attempts a + read_attempts b"
  by (simp add: read_attempts_def)

lemma read_iteration_result:
  "\<exists>new r. read_iteration env tr = (tr @ new, r) \<and> read_attempts new = 1
     \<and> (\<forall>e. r = Inl e \<longrightarrow> \<not> is_exception e \<and> \<not> never_fatal env)"
proof (cases "raises env tr SerialReadline")
  case True
  then show ?thesis
    by (auto simp: read_iteration_def read_body_def readline_def bnd_def read_attempts_def
        except_Exception_def log_error_def raised_by_def never_fatal_def)
next
  case False
  let ?l = "readline_data env tr"
  show ?thesis
  proof (cases "drop_last2 ?l = []")
    case True
    with False show ?thesis
      by (simp add: read_iteration_def read_body_def readline_def bnd_def read_attempts_def
          if_then_def ret_def except_Exception_def)
  next
    case nonempty: False
    let ?m = "seq [process env (drop_last2 ?l), log_info (''Reading: '' @ drop_last2 ?l)]"
    have c: "careful env ?m"
      by (rule careful_seq) (auto simp: careful_process careful_log_info)
    obtain tr' r where run: "?m (tr @ [Read ?l]) = (tr', r)" by (cases "?m (tr @ [Read ?l])")
    with c obtain new where new: "tr' = (tr @ [Read ?l]) @ new" "\<not> list_ex read_attempt new"
      "\<forall>e. r = Inl e \<longrightarrow> never_fatal env \<longrightarrow> is_exception e"
      unfolding careful_def by (cases r) fastforce+
    have body: "read_body env tr = (tr', r)"
      using False nonempty run
      by (simp add: read_body_def readline_def bnd_def if_then_def Let_def)
    have n: "read_attempts (Read ?l # new) = 1"
      using new(2) by (simp add: read_attempts_def list_ex_iff filter_empty_conv)
    show ?thesis
    proof (cases r)
      case (Inr u)
      with body new(1) n show ?thesis
        by (simp add: read_iteration_def except_Exception_def)
    next
      case (Inl e)
      show ?thesis
      proof (cases "is_exception e")
        case True
        with Inl body have "read_iteration env tr
            = (tr @ (Read ?l # new @ [Error ''Reading error: '' (Some e)]), Inr ())"
          by (simp add: read_iteration_def except_Exception_def log_error_def new(1))
        moreover have "read_attempts (Read ?l # new @ [Error ''Reading error: '' (Some e)]) = 1"
          using n by (simp add: read_attempts_def)
        ultimately show ?thesis by blast
      next
        case False
        with Inl body have "read_iteration env tr = (tr @ (Read ?l # new), Inl e)"
          by (simp add: read_iteration_def except_Exception_def new(1))
        with n False new(3) Inl show ?thesis by blast
      qed
    qed
  qed
qed

lemma read_result:
  "\<exists>new r. read env n tr = (tr @ new, r)
     \<and> (case r of Inr _ \<Rightarrow> read_attempts new = n
         | Inl e \<Rightarrow> \<not> is_exception e \<and> \<not> never_fatal env)"
proof (induction n arbitrary: tr)
  case 0
  then show ?case by (simp add: ret_def read_attempts_def)
next
  case (Suc n)
  obtain new1 r1 where one: "read_iteration env tr = (tr @ new1, r1)" "read_attempts new1 = 1"
    "\<forall>e. r1 = Inl e \<longrightarrow> \<not> is_exception e \<and> \<not> never_fatal env"
    using read_iteration_result [of env tr] by blast
  show ?case
  proof (cases r1)
    case (Inl e)
    with one show ?thesis by (auto simp: bnd_def)
  next
    case (Inr u)
    obtain new2 r where rest: "read env n (tr @ new1) = ((tr @ new1) @ new2, r)"
      "case r of Inr _ \<Rightarrow> read_attempts new2 = n
       | Inl e \<Rightarrow> \<not> is_exception e \<and> \<not> never_fatal env"
      using Suc [of "tr @ new1"] by blast
    have "read env (Suc n) tr = (tr @ (new1 @ new2), r)"
      using one(1) Inr rest(1) by (simp add: bnd_def)
    moreover have "case r of Inr _ \<Rightarrow> read_attempts (new1 @ new2) = Suc n
       | Inl e \<Rightarrow> \<not> is_exception e \<and> \<not> never_fatal env"
      using rest(2) one(2) by (cases r) (simp_all add: read_attempts_append)
    ultimately show ?thesis by blast
  qed
qed

lemma read_returned:
  "read env n tr = (tr', Inr u) \<Longrightarrow> read_attempts tr' = read_attempts tr + n"
  using read_result [of env n tr] by (auto simp: read_attempts_append)

lemma read_left: "read env n tr = (tr', Inl e) \<Longrightarrow> \<not> is_exception e"
  using read_result [of env n tr] by auto

lemma read_returns:
  "never_fatal env \<Longrightarrow>
   \<exists>tr'. read env n tr = (tr', Inr ()) \<and> read_attempts tr' = read_attempts tr + n"
proof -
  assume nf: "never_fatal env"
  obtain new r where r: "read env n tr = (tr @ new, r)"
    "case r of Inr _ \<Rightarrow> read_attempts new = n | Inl e \<Rightarrow> \<not> is_exception e \<and> \<not> never_fatal env"
    using read_result [of env n tr] by blast
  with nf show ?thesis by (cases r) (auto simp: read_attempts_append)
qed

lemma read_continues:
  assumes "\<not> raises env tr SerialReadline" "drop_last2 (readline_data env tr) = data" "data \<noteq> []"
    "process env data (tr @ [Read (readline_data env tr)]) = (tr', Inl e)" "is_exception e"
  shows "read env (Suc n) tr = read env n (tr' @ [Error ''Reading error: '' (Some e)])"
  using assms
  by (simp add: read_iteration_def read_body_def readline_def bnd_def if_then_def
      except_Exception_def log_error_def)

lemma read_ends:
  assumes "\<not> raises env tr SerialReadline" "drop_last2 (readline_data env tr) = data" "data \<noteq> []"
    "process env data (tr @ [Read (readline_data env tr)]) = (tr', Inl e)" "\<not> is_exception e"
  shows "read env (Suc n) tr = (tr', Inl e)"
  using assms
  by (simp add: read_iteration_def read_body_def readline_def bnd_def if_then_def
      except_Exception_def)

lemma process_begins:
  "\<exists>rest r. process env data tr = (tr @ Did (Emit (Message data None)) # rest, r)
           \<or> process env data tr = (tr @ Raised (Emit (Message data None)) # rest, r)"
proof (cases "raises env tr (Emit (Message data None))")
  case True
  then show ?thesis
    by (simp add: process_table bnd_def emit_def perform_def)
next
  case False
  let ?tr1 = "tr @ [Did (Emit (Message data None))]"
  obtain tr' r where run: "seq (map (action_of env) (fired data)) ?tr1 = (tr', r)"
    by (cases "seq (map (action_of env) (fired data)) ?tr1")
  with careful_actions [of env "fired data"] obtain new where "tr' = ?tr1 @ new"
    unfolding careful_def by blast
  with False run show ?thesis
    by (simp add: process_table bnd_def emit_def perform_def)
qed

lemma read_iteration_dispatches:
  assumes "\<not> raises env tr SerialReadline" "drop_last2 (readline_data env tr) = data" "data \<noteq> []"
  shows "\<exists>rest. fst (read_iteration env tr)
             = tr @ Read (readline_data env tr) # Did (Emit (Message data None)) # rest
           \<or> fst (read_iteration env tr)
             = tr @ Read (readline_data env tr) # Raised (Emit (Message data None)) # rest"
proof -
  let ?tr1 = "tr @ [Read (readline_data env tr)]"
  obtain rest r where p: "process env data ?tr1 = (?tr1 @ Did (Emit (Message data None)) # rest, r)
           \<or> process env data ?tr1 = (?tr1 @ Raised (Emit (Message data None)) # rest, r)"
    using process_begins [of env data ?tr1] by blast
  show ?thesis
  proof (cases r)
    case (Inl e)
    with p assms show ?thesis
      by (auto simp: read_iteration_def read_body_def readline_def bnd_def if_then_def
          except_Exception_def log_error_def)
  next
    case (Inr u)
    with p assms show ?thesis
      by (auto simp: read_iteration_def read_body_def readline_def bnd_def if_then_def
          log_info_def ret_def except_Exception_def)
  qed
qed

text \<open>
  C1, as stated: the branches are guarded one by one, so the branches after a raising
  one are still evaluated. The line \<^verbatim>\<open>mic.test unit.setwifi\<close> contains \<^verbatim>\<open>unit.setwifi\<close>; where
  \<^verbatim>\<open>Mixer()\<close> raises, the turn of the loop logs the error and no
  \<^verbatim>\<open>mycroft.wifi.start\<close> is published.
\<close>

theorem remaining_branches_skipped_counterexample:
  "py_in ''unit.setwifi'' ''mic.test unit.setwifi'' \<and>
   read (no_mixer (''mic.test unit.setwifi'' @ [CHR 0x0D, CHR 0x0A])) 1 [] =
     ([Read (''mic.test unit.setwifi'' @ [CHR 0x0D, CHR 0x0A]),
       Did (Emit (Message ''mic.test unit.setwifi'' None)),
       Raised MixerNew,
       Error ''Reading error: '' (Some (Failed MixerNew))], Inr ())"
  by code_simp

text \<open>
  C1, amended. One \<^verbatim>\<open>try\<close> encloses the whole dispatch of a line. When a branch raises,
  nothing more of that dispatch is evaluated: the failure is the last event \<open>process\<close>
  leaves. When what was raised is an instance of \<^verbatim>\<open>Exception\<close>, the loop catches it, logs
  it and makes its remaining turns from there; when it is not, the \<^verbatim>\<open>except Exception\<close>
  clause does not catch it and it ends the loop. Whatever happened before, a turn that
  reads a line with a payload starts its dispatch by publishing the payload. A loop of
  \<open>m\<close> turns that returns has called \<^verbatim>\<open>readline\<close> \<open>m\<close> times; no instance of \<^verbatim>\<open>Exception\<close> ever
  leaves the loop; and where every call raises instances of \<^verbatim>\<open>Exception\<close> only, the loop
  returns from its \<open>m\<close> turns whatever was raised: the lines that follow are still read
  and dispatched.
\<close>

theorem reader_contains_exceptions:
  "(process env data tr0 = (tr1, Inl e0) \<longrightarrow>
      (\<exists>new. tr1 = tr0 @ new \<and> new \<noteq> [] \<and> failure (last new)
          \<and> \<not> list_ex failure (butlast new)))
   \<and> (\<not> raises env tr SerialReadline \<and> drop_last2 (readline_data env tr) = data \<and> data \<noteq> [] \<and>
      process env data (tr @ [Read (readline_data env tr)]) = (tr', Inl e) \<and> is_exception e \<longrightarrow>
        read env (Suc n) tr = read env n (tr' @ [Error ''Reading error: '' (Some e)]))
   \<and> (\<not> raises env tr SerialReadline \<and> drop_last2 (readline_data env tr) = data \<and> data \<noteq> [] \<and>
      process env data (tr @ [Read (readline_data env tr)]) = (tr', Inl e) \<and> \<not> is_exception e \<longrightarrow>
        read env (Suc n) tr = (tr', Inl e))
   \<and> (\<not> raises env tr SerialReadline \<and> drop_last2 (readline_data env tr) = data \<and> data \<noteq> []
      \<longrightarrow> (\<exists>rest. fst (read_iteration env tr)
                   = tr @ Read (readline_data env tr) # Did (Emit (Message data None)) # rest
                 \<or> fst (read_iteration env tr)
                   = tr @ Read (readline_data env tr) # Raised (Emit (Message data None)) # rest))
   \<and> (\<forall>tr2. read env m tr = (tr2, Inr ()) \<longrightarrow> read_attempts tr2 = read_attempts tr + m)
   \<and> (\<forall>tr2 e2. read env m tr = (tr2, Inl e2) \<longrightarrow> \<not> is_exception e2)
   \<and> (never_fatal env \<longrightarrow>
        (\<exists>tr2. read env m tr = (tr2, Inr ()) \<and> read_attempts tr2 = read_attempts tr + m))"
  using process_stops_at_failure [of env data tr0 tr1 e0]
    read_continues [of env tr data tr' e n] read_ends [of env tr data tr' e n]
    read_iteration_dispatches [of env tr data]
    read_returned [of env m tr] read_left [of env m tr] read_returns [of env m tr]
  by blast

text \<open>
  On the line \<^verbatim>\<open>mic.test unit.setwifi\<close>: where \<^verbatim>\<open>Mixer()\<close> raises an instance of \<^verbatim>\<open>Exception\<close>
  the loop goes on to its second turn, and where it raises something else the loop is
  left.
\<close>

theorem reader_contains_exceptions_witness:
  "(\<exists>new. [Read (''mic.test unit.setwifi'' @ [CHR 0x0D, CHR 0x0A]),
            Did (Emit (Message ''mic.test unit.setwifi'' None)), Raised MixerNew]
         = [Read (''mic.test unit.setwifi'' @ [CHR 0x0D, CHR 0x0A])] @ new
       \<and> new \<noteq> [] \<and> failure (last new) \<and> \<not> list_ex failure (butlast new))
   \<and> read (no_mixer (''mic.test unit.setwifi'' @ [CHR 0x0D, CHR 0x0A])) (Suc 1) [] =
       read (no_mixer (''mic.test unit.setwifi'' @ [CHR 0x0D, CHR 0x0A])) 1
         ([Read (''mic.test unit.setwifi'' @ [CHR 0x0D, CHR 0x0A]),
           Did (Emit (Message ''mic.test unit.setwifi'' None)), Raised MixerNew]
          @ [Error ''Reading error: '' (Some (Failed MixerNew))])
   \<and> read (exiting_mixer (''mic.test unit.setwifi'' @ [CHR 0x0D, CHR 0x0A])) (Suc 1) [] =
       ([Read (''mic.test unit.setwifi'' @ [CHR 0x0D, CHR 0x0A]),
         Did (Emit (Message ''mic.test unit.setwifi'' None)), Raised MixerNew],
        Inl (Aborted MixerNew))
   \<and> (\<exists>rest. fst (read_iteration (no_mixer (''mic.test unit.setwifi'' @ [CHR 0x0D, CHR 0x0A])) [])
          = Read (''mic.test unit.setwifi'' @ [CHR 0x0D, CHR 0x0A])
              # Did (Emit (Message ''mic.test unit.setwifi'' None)) # rest
        \<or> fst (read_iteration (no_mixer (''mic.test unit.setwifi'' @ [CHR 0x0D, CHR 0x0A])) [])
          = Read (''mic.test unit.setwifi'' @ [CHR 0x0D, CHR 0x0A])
              # Raised (Emit (Message ''mic.test unit.setwifi'' None)) # rest)
   \<and> (\<exists>tr2. read (no_mixer (''mic.test unit.setwifi'' @ [CHR 0x0D, CHR 0x0A])) 2 [] = (tr2, Inr ())
        \<and> read_attempts tr2 = read_attempts [] + 2)"
proof -
  let ?L = "''mic.test unit.setwifi'' @ [CHR 0x0D, CHR 0x0A]"
  let ?E = "no_mixer ?L"
  let ?X = "exiting_mixer ?L"
  let ?T = "[Read ?L, Did (Emit (Message ''mic.test unit.setwifi'' None)), Raised MixerNew]"
  have p: "process ?E ''mic.test unit.setwifi'' [Read ?L] = (?T, Inl (Failed MixerNew))"
    by code_simp
  have px: "process ?X ''mic.test unit.setwifi'' [Read ?L] = (?T, Inl (Aborted MixerNew))"
    by code_simp
  have l: "readline_data ?E [] = ?L" "readline_data ?X [] = ?L"
    by (simp_all add: no_mixer_def exiting_mixer_def)
  have h: "\<not> raises ?E [] SerialReadline" "drop_last2 (readline_data ?E []) = ''mic.test unit.setwifi''"
    "''mic.test unit.setwifi'' \<noteq> []" "never_fatal ?E" "is_exception (Failed MixerNew)"
    by (simp_all add: no_mixer_def drop_last2_def never_fatal_def)
  have hx: "\<not> raises ?X [] SerialReadline"
    "drop_last2 (readline_data ?X []) = ''mic.test unit.setwifi''"
    "\<not> is_exception (Aborted MixerNew)"
    by (simp_all add: exiting_mixer_def drop_last2_def)
  have p': "process ?E ''mic.test unit.setwifi'' ([] @ [Read (readline_data ?E [])])
      = (?T, Inl (Failed MixerNew))"
    using p by (simp add: no_mixer_def)
  have px': "process ?X ''mic.test unit.setwifi'' ([] @ [Read (readline_data ?X [])])
      = (?T, Inl (Aborted MixerNew))"
    using px by (simp add: exiting_mixer_def)
  note inst = reader_contains_exceptions [where env = ?E and data = "''mic.test unit.setwifi''"
      and ?tr0.0 = "[Read ?L]" and ?tr1.0 = ?T and ?e0.0 = "Failed MixerNew" and tr = "[]"
      and tr' = ?T and e = "Failed MixerNew" and n = 1 and m = 2]
  note instx = reader_contains_exceptions [where env = ?X and data = "''mic.test unit.setwifi''"
      and ?tr0.0 = "[Read ?L]" and ?tr1.0 = ?T and ?e0.0 = "Aborted MixerNew" and tr = "[]"
      and tr' = ?T and e = "Aborted MixerNew" and n = 1 and m = 2]
  from inst p p' h have
    "(\<exists>new. ?T = [Read ?L] @ new \<and> new \<noteq> [] \<and> failure (last new)
        \<and> \<not> list_ex failure (butlast new))
     \<and> read ?E (Suc 1) [] = read ?E 1 (?T @ [Error ''Reading error: '' (Some (Failed MixerNew))])
     \<and> (\<exists>rest. fst (read_iteration ?E [])
            = [] @ Read (readline_data ?E []) # Did (Emit (Message ''mic.test unit.setwifi'' None)) # rest
          \<or> fst (read_iteration ?E [])
            = [] @ Read (readline_data ?E []) # Raised (Emit (Message ''mic.test unit.setwifi'' None)) # rest)
     \<and> (\<exists>tr2. read ?E 2 [] = (tr2, Inr ()) \<and> read_attempts tr2 = read_attempts [] + 2)"
    by blast
  moreover from instx px' hx have "read ?X (Suc 1) [] = (?T, Inl (Aborted MixerNew))"
    by blast
  ultimately show ?thesis
    unfolding l append_Nil by blast
qed

section \<open>Properties of platform detection\<close>

lemma detect_platform_try_result:
  "detect_platform_try env s = (s', Inr (Some p)) \<Longrightarrow>
   p = ''mycroft_mark_1'' \<and> (\<exists>tr. py_in ''Command: system.ping'' (readline_data env tr))"
  by (auto simp: detect_platform_try_def bnd_def ret_def io_def readline_def
           split: prod.splits sum.splits if_splits)

lemma detect_platform_result:
  "\<exists>s'. detect_platform env s = (s', Inr ''unknown'')
       \<or> detect_platform env s = (s', Inr ''mycroft_mark_1'')
         \<and> (\<exists>tr. py_in ''Command: system.ping'' (readline_data env tr))"
proof -
  obtain s1 where s1: "io (log_info ''Auto-detecting platform'') s = (s1, Inr ())"
    by (simp add: io_def log_info_def)
  obtain s2 r where r: "detect_platform_try env s1 = (s2, r)"
    by (cases "detect_platform_try env s1")
  show ?thesis
  proof (cases r)
    case (Inl e)
    with s1 r show ?thesis
      by (simp add: detect_platform_def bnd_def try_except_def ret_def)
  next
    case (Inr v)
    show ?thesis
    proof (cases v)
      case None
      with Inr s1 r show ?thesis
        by (simp add: detect_platform_def bnd_def try_except_def ret_def)
    next
      case (Some p)
      with Inr r have "p = ''mycroft_mark_1''"
        "\<exists>tr. py_in ''Command: system.ping'' (readline_data env tr)"
        using detect_platform_try_result by blast+
      with Some Inr s1 r show ?thesis
        by (simp add: detect_platform_def bnd_def try_except_def ret_def)
    qed
  qed
qed


text \<open>
  C9. Whatever the serial port does, and also when opening, flushing, writing or
  reading raises, \<open>detect_platform\<close> returns \<^verbatim>\<open>mycroft_mark_1\<close> or \<^verbatim>\<open>unknown\<close>: its result
  is never an exception.
\<close>

theorem detect_platform_total:
  "\<exists>self'. detect_platform env self = (self', Inr ''mycroft_mark_1'')
         \<or> detect_platform env self = (self', Inr ''unknown'')"
  using detect_platform_result [of env self] by blast






































section \<open>Properties of the bus subscriptions\<close>

text \<open>
  C10. A pairing event or a listener toggle that is \<^verbatim>\<open>None\<close>, or whose metadata is
  \<^verbatim>\<open>None\<close> or empty, makes no call to the bus client: the client's calls and its table
  of subscriptions are what they were, and the handler returns normally.
\<close>

theorem no_metadata_no_change:
  assumes "event = None \<or>
           (\<exists>ev. event = Some ev \<and> (metadata ev = None \<or> metadata ev = Some []))"
  shows "mouth_listeners B event c = (c, Inr ()) \<and> update_events B event c = (c, Inr ())"
proof -
  from assms have "\<not> has_metadata event"
    by (auto simp: has_metadata_def)
  then show ?thesis
    by (simp add: mouth_listeners_def update_events_def ret_def)
qed

theorem no_metadata_no_change_witness:
  "mouth_listeners appending_bus (Some (Message ''enclosure.mouth.listeners'' (Some [])))
     \<lparr>calls = [], registry = [(''recognizer_loop:record_begin'', MouthListen)]\<rparr>
     = (\<lparr>calls = [], registry = [(''recognizer_loop:record_begin'', MouthListen)]\<rparr>, Inr ()) \<and>
   update_events appending_bus (Some (Message ''enclosure.mouth.listeners'' (Some [])))
     \<lparr>calls = [], registry = [(''recognizer_loop:record_begin'', MouthListen)]\<rparr>
     = (\<lparr>calls = [], registry = [(''recognizer_loop:record_begin'', MouthListen)]\<rparr>, Inr ())"
  using no_metadata_no_change [of "Some (Message ''enclosure.mouth.listeners'' (Some []))"
      appending_bus "\<lparr>calls = [], registry = [(''recognizer_loop:record_begin'', MouthListen)]\<rparr>"]
  by simp
lemma client_on_set_like:
  assumes "set_like B subs"
  shows "\<exists>c'. client_on B name h c = (c', Inr ()) \<and> calls c' = calls c @ [On name h]
            \<and> subs (registry c') = insert (name, h) (subs (registry c))"
proof -
  from assms obtain b' where "bus_on B name h (registry c) = Inr b'"
    "subs b' = insert (name, h) (subs (registry c))"
    unfolding set_like_def by blast
  then show ?thesis by (simp add: client_on_def)
qed

lemma client_remove_set_like:
  assumes "set_like B subs"
  shows "\<exists>c'. client_remove B name h c = (c', Inr ()) \<and> calls c' = calls c @ [Remove name h]
            \<and> subs (registry c') = subs (registry c) - {(name, h)}"
proof -
  from assms obtain b' where "bus_remove B name h (registry c) = Inr b'"
    "subs b' = subs (registry c) - {(name, h)}"
    unfolding set_like_def by blast
  then show ?thesis by (simp add: client_remove_def)
qed

lemma register_set_like:
  assumes "set_like B subs"
  shows "\<exists>c'. register_mouth_events B c = (c', Inr ())
            \<and> calls c' = calls c @ map (\<lambda>(n, h). On n h) mouth_events
            \<and> subs (registry c') = subs (registry c) \<union> set mouth_events"
proof -
  obtain c1 where c1: "client_on B ''recognizer_loop:record_begin'' MouthListen c = (c1, Inr ())"
    "calls c1 = calls c @ [On ''recognizer_loop:record_begin'' MouthListen]"
    "subs (registry c1) = insert (''recognizer_loop:record_begin'', MouthListen) (subs (registry c))"
    using client_on_set_like [OF assms] by blast
  obtain c2 where c2: "client_on B ''recognizer_loop:record_end'' MouthReset c1 = (c2, Inr ())"
    "calls c2 = calls c1 @ [On ''recognizer_loop:record_end'' MouthReset]"
    "subs (registry c2) = insert (''recognizer_loop:record_end'', MouthReset) (subs (registry c1))"
    using client_on_set_like [OF assms] by blast
  obtain c3 where c3: "client_on B ''recognizer_loop:audio_output_start'' MouthTalk c2 = (c3, Inr ())"
    "calls c3 = calls c2 @ [On ''recognizer_loop:audio_output_start'' MouthTalk]"
    "subs (registry c3) = insert (''recognizer_loop:audio_output_start'', MouthTalk) (subs (registry c2))"
    using client_on_set_like [OF assms] by blast
  obtain c4 where c4: "client_on B ''recognizer_loop:audio_output_end'' MouthReset c3 = (c4, Inr ())"
    "calls c4 = calls c3 @ [On ''recognizer_loop:audio_output_end'' MouthReset]"
    "subs (registry c4) = insert (''recognizer_loop:audio_output_end'', MouthReset) (subs (registry c3))"
    using client_on_set_like [OF assms] by blast
  have "register_mouth_events B c = (c4, Inr ())"
    using c1(1) c2(1) c3(1) c4(1) by (simp add: register_mouth_events_def bnd_def ret_def)
  moreover have "calls c4 = calls c @ map (\<lambda>(n, h). On n h) mouth_events"
    using c1(2) c2(2) c3(2) c4(2) by (simp add: mouth_events_def)
  moreover have "subs (registry c4) = subs (registry c) \<union> set mouth_events"
    using c1(3) c2(3) c3(3) c4(3) by (auto simp: mouth_events_def)
  ultimately show ?thesis by blast
qed

lemma remove_set_like:
  assumes "set_like B subs"
  shows "\<exists>c'. remove_mouth_events B c = (c', Inr ())
            \<and> calls c' = calls c @ map (\<lambda>(n, h). Remove n h) mouth_events
            \<and> subs (registry c') = subs (registry c) - set mouth_events"
proof -
  obtain c1 where c1: "client_remove B ''recognizer_loop:record_begin'' MouthListen c = (c1, Inr ())"
    "calls c1 = calls c @ [Remove ''recognizer_loop:record_begin'' MouthListen]"
    "subs (registry c1) = subs (registry c) - {(''recognizer_loop:record_begin'', MouthListen)}"
    using client_remove_set_like [OF assms] by blast
  obtain c2 where c2: "client_remove B ''recognizer_loop:record_end'' MouthReset c1 = (c2, Inr ())"
    "calls c2 = calls c1 @ [Remove ''recognizer_loop:record_end'' MouthReset]"
    "subs (registry c2) = subs (registry c1) - {(''recognizer_loop:record_end'', MouthReset)}"
    using client_remove_set_like [OF assms] by blast
  obtain c3 where c3: "client_remove B ''recognizer_loop:audio_output_start'' MouthTalk c2 = (c3, Inr ())"
    "calls c3 = calls c2 @ [Remove ''recognizer_loop:audio_output_start'' MouthTalk]"
    "subs (registry c3) = subs (registry c2) - {(''recognizer_loop:audio_output_start'', MouthTalk)}"
    using client_remove_set_like [OF assms] by blast
  obtain c4 where c4: "client_remove B ''recognizer_loop:audio_output_end'' MouthReset c3 = (c4, Inr ())"
    "calls c4 = calls c3 @ [Remove ''recognizer_loop:audio_output_end'' MouthReset]"
    "subs (registry c4) = subs (registry c3) - {(''recognizer_loop:audio_output_end'', MouthReset)}"
    using client_remove_set_like [OF assms] by blast
  have "remove_mouth_events B c = (c4, Inr ())"
    using c1(1) c2(1) c3(1) c4(1) by (simp add: remove_mouth_events_def bnd_def ret_def)
  moreover have "calls c4 = calls c @ map (\<lambda>(n, h). Remove n h) mouth_events"
    using c1(2) c2(2) c3(2) c4(2) by (simp add: mouth_events_def)
  moreover have "subs (registry c4) = subs (registry c) - set mouth_events"
    using c1(3) c2(3) c3(3) c4(3) by (auto simp: mouth_events_def)
  ultimately show ?thesis by blast
qed

lemmas bus_defs = register_events_def register_mouth_events_def remove_mouth_events_def
  update_events_def has_metadata_def metadata_of_def client_on_def client_remove_def
  appending_bus_def paired_event_def bnd_def ret_def

text \<open>
  C5, as stated: activating an active set registers no handler twice, and deactivating
  an inactive set raises nothing. With a client that keeps its handlers in a list:
  after startup has registered the set, a pairing event registers the handler of
  \<^verbatim>\<open>record_begin\<close> a second time; and the second of two unpairing events raises.
\<close>

theorem repeated_activation_counterexample:
  "count_list
     (registry (fst (update_events appending_bus (paired_event True)
        (fst (register_events appending_bus \<lparr>calls = [], registry = []\<rparr>)))))
     (''recognizer_loop:record_begin'', MouthListen) = 2
   \<and> snd (update_events appending_bus (paired_event False)
        (fst (update_events appending_bus (paired_event False)
          (fst (register_events appending_bus \<lparr>calls = [], registry = []\<rparr>)))))
      = Inl ValueError"
  by (simp add: bus_defs)

text \<open>
  C5, amended. Activation makes its four calls of \<^verbatim>\<open>on\<close> and deactivation its four calls
  of \<^verbatim>\<open>remove\<close> every time, without looking at the state of the set. With a bus client
  that keeps a set of subscriptions, activating twice leaves the set that activating
  once leaves, deactivating twice the set that deactivating once leaves, and neither
  raises; the calls are made both times.
\<close>

theorem subscriptions_idempotent_on_set_like_bus:
  assumes "set_like B subs"
  shows "(\<exists>c1 c2. register_mouth_events B c = (c1, Inr ()) \<and> register_mouth_events B c1 = (c2, Inr ())
            \<and> subs (registry c1) = subs (registry c) \<union> set mouth_events
            \<and> subs (registry c2) = subs (registry c1)
            \<and> calls c2 = calls c @ map (\<lambda>(n, h). On n h) mouth_events
                               @ map (\<lambda>(n, h). On n h) mouth_events)
       \<and> (\<exists>c1 c2. remove_mouth_events B c = (c1, Inr ()) \<and> remove_mouth_events B c1 = (c2, Inr ())
            \<and> subs (registry c1) = subs (registry c) - set mouth_events
            \<and> subs (registry c2) = subs (registry c1)
            \<and> calls c2 = calls c @ map (\<lambda>(n, h). Remove n h) mouth_events
                               @ map (\<lambda>(n, h). Remove n h) mouth_events)"
proof -
  obtain c1 where c1: "register_mouth_events B c = (c1, Inr ())"
    "calls c1 = calls c @ map (\<lambda>(n, h). On n h) mouth_events"
    "subs (registry c1) = subs (registry c) \<union> set mouth_events"
    using register_set_like [OF assms] by blast
  obtain c2 where c2: "register_mouth_events B c1 = (c2, Inr ())"
    "calls c2 = calls c1 @ map (\<lambda>(n, h). On n h) mouth_events"
    "subs (registry c2) = subs (registry c1) \<union> set mouth_events"
    using register_set_like [OF assms] by blast
  obtain d1 where d1: "remove_mouth_events B c = (d1, Inr ())"
    "calls d1 = calls c @ map (\<lambda>(n, h). Remove n h) mouth_events"
    "subs (registry d1) = subs (registry c) - set mouth_events"
    using remove_set_like [OF assms] by blast
  obtain d2 where d2: "remove_mouth_events B d1 = (d2, Inr ())"
    "calls d2 = calls d1 @ map (\<lambda>(n, h). Remove n h) mouth_events"
    "subs (registry d2) = subs (registry d1) - set mouth_events"
    using remove_set_like [OF assms] by blast
  have "subs (registry c2) = subs (registry c1)" using c1(3) c2(3) by auto
  moreover have "subs (registry d2) = subs (registry d1)" using d1(3) d2(3) by auto
  ultimately show ?thesis
    using c1 c2 d1 d2 by (intro conjI exI [of _ c1] exI [of _ c2] exI [of _ d1] exI [of _ d2]) simp_all
qed

lemma set_like_deduplicating: "set_like deduplicating_bus set"
  by (auto simp: set_like_def deduplicating_bus_def)

theorem subscriptions_idempotent_on_set_like_bus_witness:
  "(\<exists>c1 c2. register_mouth_events deduplicating_bus \<lparr>calls = [], registry = []\<rparr> = (c1, Inr ())
        \<and> register_mouth_events deduplicating_bus c1 = (c2, Inr ())
        \<and> set (registry c1) = set mouth_events
        \<and> set (registry c2) = set (registry c1)
        \<and> calls c2 = map (\<lambda>(n, h). On n h) mouth_events @ map (\<lambda>(n, h). On n h) mouth_events)
   \<and> (\<exists>c1 c2. remove_mouth_events deduplicating_bus \<lparr>calls = [], registry = []\<rparr> = (c1, Inr ())
        \<and> remove_mouth_events deduplicating_bus c1 = (c2, Inr ())
        \<and> set (registry c1) = {}
        \<and> set (registry c2) = set (registry c1)
        \<and> calls c2 = map (\<lambda>(n, h). Remove n h) mouth_events
                      @ map (\<lambda>(n, h). Remove n h) mouth_events)"
  using subscriptions_idempotent_on_set_like_bus [OF set_like_deduplicating,
      of "\<lparr>calls = [], registry = []\<rparr>"]
  by simp

end
